theory Spec2Isabelle
  imports Main "HOL-Library.AList"
begin

section \<open>Type model (lang\_types.py)\<close>

text \<open>
  A \<open>ClassDef\<close> object has six constructor fields, which are never assigned again, and
  derived fields that the linker and the interpreter assign in place on objects shared by
  reference. The constructor fields are the record \<open>classdecl\<close>. The derived fields are
  kept field by field, each as a map from the name of the type (the key of the object in the
  dict \<open>Parser.types\<close>, and the identity of the object) to the value of that field, in the
  record \<open>class_table\<close>. A reference to a \<open>ClassDef\<close> (\<open>t.base\<close>, the elements of
  \<open>t.interfaces\<close>) is the name of its target, so that an assignment through one reference is
  seen through every other one. The dict \<open>types\<close> is the list of its values in insertion
  order; \<open>methods\<close>, an insertion-ordered dict, is an association list.
\<close>

record classdecl =
  name :: string
  is_interface :: bool
  base_name :: "string option"
  interfaces_names :: "string list"
  fields_decl :: "string list"
  methods :: "(string \<times> string list) list"

type_synonym method_plan = "(bool \<times> int) list"

record class_table =
  types :: "classdecl list"
  base :: "string \<Rightarrow> string option"
  interfaces :: "string \<Rightarrow> string list"
  all_fields_cache :: "string \<Rightarrow> string list"
  field_index :: "string \<Rightarrow> (string \<rightharpoonup> nat)"
  method_slot :: "string \<Rightarrow> (string \<times> nat) list"
  vtable_tokens :: "string \<Rightarrow> string list list"
  vtable_plans :: "string \<Rightarrow> method_plan option list"

text \<open>The table as the \<open>ClassDef\<close> constructor leaves every object: no base, no interfaces,
  empty layout and empty dispatch tables.\<close>

definition new_table :: "classdecl list \<Rightarrow> class_table" where
  "new_table D = \<lparr> types = D, base = (\<lambda>_. None), interfaces = (\<lambda>_. []),
     all_fields_cache = (\<lambda>_. []), field_index = (\<lambda>_. Map.empty),
     method_slot = (\<lambda>_. []), vtable_tokens = (\<lambda>_. []), vtable_plans = (\<lambda>_. []) \<rparr>"

text \<open>\<open>self.types[n]\<close> and \<open>n in self.types\<close>.\<close>

definition lookup_type :: "classdecl list \<Rightarrow> string \<Rightarrow> classdecl option" where
  "lookup_type D n = find (\<lambda>d. name d = n) D"

text \<open>The object \<open>t.base\<close>, or \<open>None\<close>.\<close>

definition base_obj :: "class_table \<Rightarrow> classdecl \<Rightarrow> classdecl option" where
  "base_obj T t = (case base T (name t) of None \<Rightarrow> None | Some b \<Rightarrow> lookup_type (types T) b)"

text \<open>\<open>{n: i for i, n in enumerate(allf)}\<close>: a later occurrence of a name overwrites an
  earlier one.\<close>

definition index_map :: "string list \<Rightarrow> (string \<rightharpoonup> nat)" where
  "index_map allf = fold (\<lambda>(i, n) m. m(n \<mapsto> i)) (enumerate 0 allf) Map.empty"

definition compute_layout :: "class_table \<Rightarrow> classdecl \<Rightarrow> class_table" where
  "compute_layout T t =
     (let allf = (if is_interface t then []
                  else (case base T (name t) of
                          None \<Rightarrow> fields_decl t
                        | Some b \<Rightarrow> all_fields_cache T b @ fields_decl t))
      in T\<lparr> all_fields_cache := (all_fields_cache T)(name t := allf),
             field_index := (field_index T)(name t := index_map allf) \<rparr>)"

definition all_fields :: "class_table \<Rightarrow> classdecl \<Rightarrow> string list" where
  "all_fields T t = all_fields_cache T (name t)"

section \<open>Linker (Parser.\_resolve\_and\_link)\<close>

datatype error =
    UnknownBase string string
  | BaseIsInterface string
  | UnknownInterface string string
  | NotAnInterface string string
  | CyclicInheritance
  | LayoutFailed
  | FieldRedefined string string
  | VtablesFailed
  | MethodNotInView string string
  | NotImplemented string string
  | NotSubclass string string
  | InternalNoSlot string string
  | MethodNotResolved string
  | UnknownFieldInMethod string
  | ItableMissing string string string
  | UnknownVariable string
  | UnknownClass string
  | InstantiateInterface
  | ArityMismatch string nat nat
  | PyIndexError
  | PyKeyError
  | PyTypeError

subsection \<open>Step 1: bases\<close>

fun link_bases :: "classdecl list \<Rightarrow> class_table \<Rightarrow> error + class_table" where
  "link_bases [] T = Inr T"
| "link_bases (t # ts) T =
     (if is_interface t then link_bases ts T
      else (case base_name t of
              None \<Rightarrow> link_bases ts T
            | Some bn \<Rightarrow>
                (case lookup_type (types T) bn of
                   None \<Rightarrow> Inl (UnknownBase bn (name t))
                 | Some b \<Rightarrow>
                     if is_interface b then Inl (BaseIsInterface (name t))
                     else link_bases ts (T\<lparr> base := (base T)(name t := Some (name b)) \<rparr>))))"

subsection \<open>Step 2: interfaces\<close>

fun resolve_interfaces :: "class_table \<Rightarrow> classdecl \<Rightarrow> string list \<Rightarrow> string list \<Rightarrow> error + string list" where
  "resolve_interfaces T t [] resolved = Inr resolved"
| "resolve_interfaces T t (iname # inames) resolved =
     (case lookup_type (types T) iname of
        None \<Rightarrow> Inl (UnknownInterface iname (name t))
      | Some iface \<Rightarrow>
          if \<not> is_interface iface then Inl (NotAnInterface iname (name t))
          else resolve_interfaces T t inames (resolved @ [name iface]))"

fun link_interfaces :: "classdecl list \<Rightarrow> class_table \<Rightarrow> error + class_table" where
  "link_interfaces [] T = Inr T"
| "link_interfaces (t # ts) T =
     (if is_interface t then link_interfaces ts T
      else (case resolve_interfaces T t (interfaces_names t) [] of
              Inl e \<Rightarrow> Inl e
            | Inr resolved \<Rightarrow>
                link_interfaces ts (T\<lparr> interfaces := (interfaces T)(name t := resolved) \<rparr>)))"

subsection \<open>Step 3: cycle detection\<close>

text \<open>The two-pointer walk of \<open>has_cycle\<close>. \<open>slow\<close> and \<open>fast\<close> are references or
  \<open>None\<close>. The loop is not bounded by anything in its own text, so it is a partial function:
  the value \<open>None\<close> of the outer option is a walk that never returns. (\<open>slow\<close> moves one
  link where \<open>fast\<close> has moved two, so \<open>slow.base\<close> is never read from \<open>None\<close>; the model
  lets \<open>None\<close> stay \<open>None\<close> there.)\<close>

partial_function (option) has_cycle_loop ::
  "class_table \<Rightarrow> string option \<Rightarrow> string option \<Rightarrow> bool option" where
  "has_cycle_loop T slow fast =
     (case fast of
        None \<Rightarrow> Some False
      | Some f \<Rightarrow>
          (case base T f of
             None \<Rightarrow> Some False
           | Some fb \<Rightarrow>
               (let slow' = (case slow of None \<Rightarrow> None | Some s \<Rightarrow> base T s);
                    fast' = base T fb
                in if slow' = fast' then Some True else has_cycle_loop T slow' fast')))"

definition has_cycle :: "class_table \<Rightarrow> classdecl \<Rightarrow> bool option" where
  "has_cycle T start = has_cycle_loop T (Some (name start)) (Some (name start))"

fun check_cycles :: "classdecl list \<Rightarrow> class_table \<Rightarrow> (error + class_table) option" where
  "check_cycles [] T = Some (Inr T)"
| "check_cycles (t # ts) T =
     (if is_interface t then check_cycles ts T
      else (case has_cycle T t of
              None \<Rightarrow> None
            | Some True \<Rightarrow> Some (Inl CyclicInheritance)
            | Some False \<Rightarrow> check_cycles ts T))"

subsection \<open>Step 4: field layout, bases first\<close>

text \<open>\<open>remaining\<close> is a Python set of names and \<open>list(remaining)\<close> enumerates it in an
  order the language leaves open; the model enumerates it in the order of the table. The
  snapshot \<open>list(remaining)\<close> is the first argument of the pass, the state of the pass is
  \<open>(table, done, remaining, progressed)\<close>. The names come from the table, so \<open>self.types[name]\<close>
  always finds its type; the model skips a name that it does not find.\<close>

definition class_names :: "classdecl list \<Rightarrow> string list" where
  "class_names D = map name (filter (\<lambda>t. \<not> is_interface t) D)"

fun layout_interfaces :: "classdecl list \<Rightarrow> class_table \<Rightarrow> class_table" where
  "layout_interfaces [] T = T"
| "layout_interfaces (t # ts) T =
     layout_interfaces ts (if is_interface t then compute_layout T t else T)"

fun layout_pass ::
  "string list \<Rightarrow> class_table \<times> string set \<times> string list \<times> bool
     \<Rightarrow> class_table \<times> string set \<times> string list \<times> bool" where
  "layout_pass [] st = st"
| "layout_pass (n # ns) (T, done_names, remaining, progressed) =
     (case lookup_type (types T) n of
        None \<Rightarrow> layout_pass ns (T, done_names, remaining, progressed)
      | Some t \<Rightarrow>
          if (case base T (name t) of None \<Rightarrow> True | Some b \<Rightarrow> b \<in> done_names)
          then layout_pass ns (compute_layout T t, insert n done_names, removeAll n remaining, True)
          else layout_pass ns (T, done_names, remaining, progressed))"

function layout_loop :: "class_table \<Rightarrow> string set \<Rightarrow> string list \<Rightarrow> error + class_table" where
  "layout_loop T done_names remaining =
     (if remaining = [] then Inr T
      else (case layout_pass remaining (T, done_names, remaining, False) of
              (T', done_names', remaining', progressed) \<Rightarrow>
                if \<not> progressed then Inl LayoutFailed
                else layout_loop T' done_names' remaining'))"
  by pat_completeness auto
termination
proof (relation "measure (\<lambda>(T, d, r). length r)")
  show "wf (measure (\<lambda>(T, d, r). length r))" by simp
next
  fix T :: class_table and done_names remaining x y xa ya xb yb
  assume "remaining \<noteq> []"
    and "(x, y) = layout_pass remaining (T, done_names, remaining, False)"
    and "(xa, ya) = y" and "(xb, yb) = ya" and "\<not> \<not> yb"
  then have run: "layout_pass remaining (T, done_names, remaining, False) = (x, xa, xb, True)"
    by simp
  have shrink: "length rm' \<le> length rm"
    if "layout_pass ns (U, dn, rm, pr) = (U', dn', rm', pr')"
    for ns U dn rm pr U' dn' rm' pr'
    using that
  proof (induction ns arbitrary: U dn rm pr)
    case Nil
    then show ?case by simp
  next
    case (Cons n ns)
    have rm: "length (removeAll n rm) \<le> length rm"
      by (simp add: removeAll_filter_not_eq)
    show ?case
    proof (cases "lookup_type (types U) n")
      case None
      with Cons.prems have "layout_pass ns (U, dn, rm, pr) = (U', dn', rm', pr')" by simp
      then show ?thesis by (rule Cons.IH)
    next
      case (Some t)
      show ?thesis
      proof (cases "case base U (name t) of None \<Rightarrow> True | Some b \<Rightarrow> b \<in> dn")
        case True
        with Some Cons.prems
        have "layout_pass ns (compute_layout U t, insert n dn, removeAll n rm, True) = (U', dn', rm', pr')"
          by simp
        then have "length rm' \<le> length (removeAll n rm)" by (rule Cons.IH)
        with rm show ?thesis by linarith
      next
        case False
        with Some Cons.prems have "layout_pass ns (U, dn, rm, pr) = (U', dn', rm', pr')" by simp
        then show ?thesis by (rule Cons.IH)
      qed
    qed
  qed
  have progress: "length rm' < length rm"
    if "layout_pass ns (U, dn, rm, False) = (U', dn', rm', True)" and "set ns \<subseteq> set rm"
    for ns U dn rm U' dn' rm'
    using that
  proof (induction ns arbitrary: U dn rm)
    case Nil
    then show ?case by simp
  next
    case (Cons n ns)
    from Cons.prems(2) have "n \<in> set rm" by simp
    then have rm: "length (removeAll n rm) < length rm"
      by (induction rm) (auto simp: less_Suc_eq_le removeAll_filter_not_eq)
    from Cons.prems(2) have sub: "set ns \<subseteq> set rm" by simp
    show ?case
    proof (cases "lookup_type (types U) n")
      case None
      with Cons.prems have "layout_pass ns (U, dn, rm, False) = (U', dn', rm', True)" by simp
      then show ?thesis using sub by (rule Cons.IH)
    next
      case (Some t)
      show ?thesis
      proof (cases "case base U (name t) of None \<Rightarrow> True | Some b \<Rightarrow> b \<in> dn")
        case True
        with Some Cons.prems
        have "layout_pass ns (compute_layout U t, insert n dn, removeAll n rm, True) = (U', dn', rm', True)"
          by simp
        then have "length rm' \<le> length (removeAll n rm)" by (rule shrink)
        with rm show ?thesis by linarith
      next
        case False
        with Some Cons.prems have "layout_pass ns (U, dn, rm, False) = (U', dn', rm', True)" by simp
        then show ?thesis using sub by (rule Cons.IH)
      qed
    qed
  qed
  from run have "length xb < length remaining"
    by (rule progress) simp
  then show "((x, xa, xb), T, done_names, remaining) \<in> measure (\<lambda>(T, d, r). length r)"
    by simp
qed

subsection \<open>Step 5: no redefinition of an inherited field\<close>

fun check_fields :: "classdecl list \<Rightarrow> class_table \<Rightarrow> error + class_table" where
  "check_fields [] T = Inr T"
| "check_fields (t # ts) T =
     (if is_interface t then check_fields ts T
      else (case base T (name t) of
              None \<Rightarrow> check_fields ts T
            | Some b \<Rightarrow>
                (case find (\<lambda>f. f \<in> set (all_fields_cache T b)) (fields_decl t) of
                   Some f \<Rightarrow> Inl (FieldRedefined f (name t))
                 | None \<Rightarrow> check_fields ts T)))"

subsection \<open>Step 6: method slots of interfaces\<close>

text \<open>\<open>{m: i for i, m in enumerate(t.methods.keys())}\<close>; the keys of a dict are distinct, so
  the comprehension inserts each of them once, in order.\<close>

definition interface_slots :: "classdecl \<Rightarrow> (string \<times> nat) list" where
  "interface_slots t = map (\<lambda>(i, m). (m, i)) (enumerate 0 (map fst (methods t)))"

fun slot_interfaces :: "classdecl list \<Rightarrow> class_table \<Rightarrow> class_table" where
  "slot_interfaces [] T = T"
| "slot_interfaces (t # ts) T =
     slot_interfaces ts
       (if \<not> is_interface t then T
        else T\<lparr> method_slot := (method_slot T)(name t := interface_slots t) \<rparr>)"

subsection \<open>Step 7: vtables, bases first\<close>

text \<open>One iteration of the loop over \<open>t.methods.items()\<close>: an overriding method replaces the
  tokens at its slot, a new method gets the next slot. (\<open>vt[slot := toks]\<close> leaves \<open>vt\<close> as it
  is when \<open>slot\<close> is out of range, where Python raises; lemma \<open>slots_ok_add_methods\<close> below
  shows that the slots of the dict are always in range.)\<close>

definition add_method ::
  "string \<times> string list \<Rightarrow> (string \<times> nat) list \<times> string list list
     \<Rightarrow> (string \<times> nat) list \<times> string list list" where
  "add_method mt st =
     (case mt of (mname, toks) \<Rightarrow> case st of (ms, vt) \<Rightarrow>
        (case map_of ms mname of
           Some slot \<Rightarrow> (ms, vt[slot := toks])
         | None \<Rightarrow> (ms @ [(mname, length vt)], vt @ [toks])))"

definition build_vtable :: "class_table \<Rightarrow> classdecl \<Rightarrow> class_table" where
  "build_vtable T t =
     (let start = (case base T (name t) of
                     None \<Rightarrow> ([], [])
                   | Some b \<Rightarrow> (method_slot T b, vtable_tokens T b));
          built = fold add_method (methods t) start
      in T\<lparr> method_slot := (method_slot T)(name t := fst built),
             vtable_tokens := (vtable_tokens T)(name t := snd built),
             vtable_plans := (vtable_plans T)(name t := replicate (length (snd built)) None) \<rparr>)"

fun vtable_pass ::
  "string list \<Rightarrow> class_table \<times> string set \<times> string list \<times> bool
     \<Rightarrow> class_table \<times> string set \<times> string list \<times> bool" where
  "vtable_pass [] st = st"
| "vtable_pass (n # ns) (T, done_names, remaining, progressed) =
     (case lookup_type (types T) n of
        None \<Rightarrow> vtable_pass ns (T, done_names, remaining, progressed)
      | Some t \<Rightarrow>
          if (case base T (name t) of None \<Rightarrow> True | Some b \<Rightarrow> b \<in> done_names)
          then vtable_pass ns (build_vtable T t, insert n done_names, removeAll n remaining, True)
          else vtable_pass ns (T, done_names, remaining, progressed))"

function vtable_loop :: "class_table \<Rightarrow> string set \<Rightarrow> string list \<Rightarrow> error + class_table" where
  "vtable_loop T done_names remaining =
     (if remaining = [] then Inr T
      else (case vtable_pass remaining (T, done_names, remaining, False) of
              (T', done_names', remaining', progressed) \<Rightarrow>
                if \<not> progressed then Inl VtablesFailed
                else vtable_loop T' done_names' remaining'))"
  by pat_completeness auto
termination
proof (relation "measure (\<lambda>(T, d, r). length r)")
  show "wf (measure (\<lambda>(T, d, r). length r))" by simp
next
  fix T :: class_table and done_names remaining x y xa ya xb yb
  assume "remaining \<noteq> []"
    and "(x, y) = vtable_pass remaining (T, done_names, remaining, False)"
    and "(xa, ya) = y" and "(xb, yb) = ya" and "\<not> \<not> yb"
  then have run: "vtable_pass remaining (T, done_names, remaining, False) = (x, xa, xb, True)"
    by simp
  have shrink: "length rm' \<le> length rm"
    if "vtable_pass ns (U, dn, rm, pr) = (U', dn', rm', pr')"
    for ns U dn rm pr U' dn' rm' pr'
    using that
  proof (induction ns arbitrary: U dn rm pr)
    case Nil
    then show ?case by simp
  next
    case (Cons n ns)
    have rm: "length (removeAll n rm) \<le> length rm"
      by (simp add: removeAll_filter_not_eq)
    show ?case
    proof (cases "lookup_type (types U) n")
      case None
      with Cons.prems have "vtable_pass ns (U, dn, rm, pr) = (U', dn', rm', pr')" by simp
      then show ?thesis by (rule Cons.IH)
    next
      case (Some t)
      show ?thesis
      proof (cases "case base U (name t) of None \<Rightarrow> True | Some b \<Rightarrow> b \<in> dn")
        case True
        with Some Cons.prems
        have "vtable_pass ns (build_vtable U t, insert n dn, removeAll n rm, True) = (U', dn', rm', pr')"
          by simp
        then have "length rm' \<le> length (removeAll n rm)" by (rule Cons.IH)
        with rm show ?thesis by linarith
      next
        case False
        with Some Cons.prems have "vtable_pass ns (U, dn, rm, pr) = (U', dn', rm', pr')" by simp
        then show ?thesis by (rule Cons.IH)
      qed
    qed
  qed
  have progress: "length rm' < length rm"
    if "vtable_pass ns (U, dn, rm, False) = (U', dn', rm', True)" and "set ns \<subseteq> set rm"
    for ns U dn rm U' dn' rm'
    using that
  proof (induction ns arbitrary: U dn rm)
    case Nil
    then show ?case by simp
  next
    case (Cons n ns)
    from Cons.prems(2) have "n \<in> set rm" by simp
    then have rm: "length (removeAll n rm) < length rm"
      by (induction rm) (auto simp: less_Suc_eq_le removeAll_filter_not_eq)
    from Cons.prems(2) have sub: "set ns \<subseteq> set rm" by simp
    show ?case
    proof (cases "lookup_type (types U) n")
      case None
      with Cons.prems have "vtable_pass ns (U, dn, rm, False) = (U', dn', rm', True)" by simp
      then show ?thesis using sub by (rule Cons.IH)
    next
      case (Some t)
      show ?thesis
      proof (cases "case base U (name t) of None \<Rightarrow> True | Some b \<Rightarrow> b \<in> dn")
        case True
        with Some Cons.prems
        have "vtable_pass ns (build_vtable U t, insert n dn, removeAll n rm, True) = (U', dn', rm', True)"
          by simp
        then have "length rm' \<le> length (removeAll n rm)" by (rule shrink)
        with rm show ?thesis by linarith
      next
        case False
        with Some Cons.prems have "vtable_pass ns (U, dn, rm, False) = (U', dn', rm', True)" by simp
        then show ?thesis using sub by (rule Cons.IH)
      qed
    qed
  qed
  from run have "length xb < length remaining"
    by (rule progress) simp
  then show "((x, xa, xb), T, done_names, remaining) \<in> measure (\<lambda>(T, d, r). length r)"
    by simp
qed

subsection \<open>The whole pass\<close>

text \<open>The outer option is \<open>None\<close> when a cycle walk of step 3 does not return; an
  exception of the linker is \<open>Inl\<close>.\<close>

definition resolve_and_link :: "classdecl list \<Rightarrow> (error + class_table) option" where
  "resolve_and_link D =
     (case link_bases D (new_table D) of
        Inl e \<Rightarrow> Some (Inl e)
      | Inr T1 \<Rightarrow>
     (case link_interfaces D T1 of
        Inl e \<Rightarrow> Some (Inl e)
      | Inr T2 \<Rightarrow>
     (case check_cycles D T2 of
        None \<Rightarrow> None
      | Some (Inl e) \<Rightarrow> Some (Inl e)
      | Some (Inr T3) \<Rightarrow>
     (case layout_loop (layout_interfaces D T3) {} (class_names D) of
        Inl e \<Rightarrow> Some (Inl e)
      | Inr T4 \<Rightarrow>
     (case check_fields D T4 of
        Inl e \<Rightarrow> Some (Inl e)
      | Inr T5 \<Rightarrow>
     (case vtable_loop (slot_interfaces D T5) {} (class_names D) of
        Inl e \<Rightarrow> Some (Inl e)
      | Inr T7 \<Rightarrow> Some (Inr T7)))))))"

section \<open>Walks over the linked hierarchy (lang\_types.py)\<close>

text \<open>Every walk is a \<open>while c is not None\<close> loop that follows \<open>c.base\<close>; nothing in its text
  bounds it, so each is a partial function whose outer option is \<open>None\<close> when the walk does
  not return. A variable that holds a \<open>ClassDef\<close> or \<open>None\<close> is a \<open>classdecl option\<close>;
  \<open>c is other\<close> compares the names, the keys of the two objects in the table.\<close>

partial_function (option) lookup_method_loop ::
  "class_table \<Rightarrow> classdecl option \<Rightarrow> string \<Rightarrow> string list option option" where
  "lookup_method_loop T c n =
     (case c of
        None \<Rightarrow> Some None
      | Some cd \<Rightarrow>
          (case map_of (methods cd) n of
             Some toks \<Rightarrow> Some (Some toks)
           | None \<Rightarrow> lookup_method_loop T (base_obj T cd) n))"

definition lookup_method :: "class_table \<Rightarrow> classdecl \<Rightarrow> string \<Rightarrow> string list option option" where
  "lookup_method T self n =
     (if is_interface self then Some (map_of (methods self) n)
      else lookup_method_loop T (Some self) n)"

partial_function (option) is_subclass_loop ::
  "class_table \<Rightarrow> classdecl option \<Rightarrow> classdecl \<Rightarrow> bool option" where
  "is_subclass_loop T c other =
     (case c of
        None \<Rightarrow> Some False
      | Some cd \<Rightarrow>
          if name cd = name other then Some True
          else is_subclass_loop T (base_obj T cd) other)"

definition is_subclass_of :: "class_table \<Rightarrow> classdecl \<Rightarrow> classdecl \<Rightarrow> bool option" where
  "is_subclass_of T self other =
     (if is_interface self \<or> is_interface other then Some False
      else is_subclass_loop T (Some self) other)"

partial_function (option) all_interfaces_loop ::
  "class_table \<Rightarrow> classdecl option \<Rightarrow> string set \<Rightarrow> string set option" where
  "all_interfaces_loop T c out =
     (case c of
        None \<Rightarrow> Some out
      | Some cd \<Rightarrow>
          all_interfaces_loop T (base_obj T cd) (out \<union> set (interfaces T (name cd))))"

definition all_interfaces :: "class_table \<Rightarrow> classdecl \<Rightarrow> string set option" where
  "all_interfaces T self =
     (if is_interface self then Some {name self}
      else all_interfaces_loop T (Some self) {})"

definition implements_interface :: "class_table \<Rightarrow> classdecl \<Rightarrow> classdecl \<Rightarrow> bool option" where
  "implements_interface T self iface =
     (if \<not> is_interface iface then Some False
      else (case all_interfaces T self of
              None \<Rightarrow> None
            | Some ifs \<Rightarrow> Some (name iface \<in> ifs)))"

section \<open>Tokens\<close>

text \<open>\<open>is_int\<close> matches \<open>-?\d+$\<close> at the start of the token: an optional minus sign, at least
  one digit, and the end of the string or one newline before it. Strings are byte strings
  here, so \<open>\d\<close> is an ASCII digit. \<open>int(tok)\<close> reads the same shape.\<close>

definition is_digit :: "char \<Rightarrow> bool" where
  "is_digit c = (c \<in> set ''0123456789'')"

definition drop_sign :: "string \<Rightarrow> string" where
  "drop_sign tok = (case tok of [] \<Rightarrow> [] | c # cs \<Rightarrow> if c = CHR ''-'' then cs else tok)"

definition drop_newline :: "string \<Rightarrow> string" where
  "drop_newline tok = (if tok \<noteq> [] \<and> last tok = CHR 0x0A then butlast tok else tok)"

definition is_int :: "string \<Rightarrow> bool" where
  "is_int tok = (let ds = drop_newline (drop_sign tok) in ds \<noteq> [] \<and> list_all is_digit ds)"

definition digit_value :: "char \<Rightarrow> int" where
  "digit_value c = int (of_char c) - 48"

definition py_int :: "string \<Rightarrow> int" where
  "py_int tok =
     (let v = foldl (\<lambda>a c. 10 * a + digit_value c) 0 (drop_newline (drop_sign tok))
      in if tok \<noteq> [] \<and> hd tok = CHR ''-'' then - v else v)"

section \<open>Interpreter state (interpreter.py)\<close>

record config =
  enable_metrics :: bool
  enable_gc :: bool
  enable_vtable :: bool
  enable_cache :: bool

record metrics =
  resolve_calls :: int
  resolve_time_ns :: int
  resolve_steps :: int
  cache_hits :: int
  cache_misses :: int
  vtable_uses :: int
  itable_uses :: int
  class_jumps :: int
  class_probes :: int
  resolve_fails :: int
  gc_runs :: int
  gc_collected :: int

definition new_metrics :: metrics where
  "new_metrics = \<lparr> resolve_calls = 0, resolve_time_ns = 0, resolve_steps = 0,
     cache_hits = 0, cache_misses = 0, vtable_uses = 0, itable_uses = 0,
     class_jumps = 0, class_probes = 0, resolve_fails = 0, gc_runs = 0, gc_collected = 0 \<rparr>"

text \<open>An \<open>Instance\<close> holds its class and its values. Instances are shared by reference (a
  binding, an alias and the heap list may hold the same one, and a field assignment through
  one is seen through the others), so they live in a store: a reference is an address,
  \<open>id(x)\<close> is that address, and \<open>next_id\<close> is the first address not yet given out. The
  class table does not change while statements run, so an instance and a binding carry the
  constructor fields of their \<open>ClassDef\<close> themselves.\<close>

record pyinstance =
  cls :: classdecl
  inst_values :: "int list"

record var_binding =
  inst :: nat
  view_cls :: classdecl

text \<open>The two \<open>ClassDef\<close> fields that the interpreter assigns while it runs, the lazily
  compiled plans \<open>_vtable_plans\<close> and \<open>_itable_plans\<close>, are kept by type name like the other
  derived fields, in the state of the interpreter.\<close>

datatype out_line = Values "int list" | Text string

record interp =
  env :: "(string \<times> var_binding) list"
  plan_cache :: "(string \<times> string \<times> string \<times> string) \<rightharpoonup> method_plan"
  heap :: "nat list"
  store :: "nat \<Rightarrow> pyinstance"
  next_id :: nat
  metrics_of :: metrics
  class_vtable_plans :: "string \<Rightarrow> method_plan option list"
  class_itable_plans :: "string \<Rightarrow> (string \<rightharpoonup> method_plan option list)"
  printed :: "out_line list"

definition new_interp :: "class_table \<Rightarrow> (nat \<Rightarrow> pyinstance) \<Rightarrow> interp" where
  "new_interp T mem = \<lparr> env = [], plan_cache = Map.empty, heap = [], store = mem, next_id = 0,
     metrics_of = new_metrics, class_vtable_plans = vtable_plans T,
     class_itable_plans = (\<lambda>_. Map.empty), printed = [] \<rparr>"

subsection \<open>Metrics.print\<close>

text \<open>The report, line by line after its heading: the label and the counter printed after
  it. The line of \<open>resolve_time_ns\<close> also carries the average as a float when
  \<open>resolve_calls\<close> is not zero; the float is left out.\<close>

definition metrics_print :: "metrics \<Rightarrow> (string \<times> int) list" where
  "metrics_print m =
     [(''resolve_calls'', resolve_calls m),
      (''cache_hits'', cache_hits m),
      (''cache_misses'', cache_misses m),
      (''vtable_uses'', vtable_uses m),
      (''itable_uses'', itable_uses m),
      (''resolve_steps'', resolve_steps m),
      (''resolve_time_ns'', resolve_time_ns m),
      (''gc_runs'', gc_runs m),
      (''gc_collected'', gc_collected m)]"

text \<open>The end of \<open>Interpreter.run\<close>: the report is printed when metrics are enabled.\<close>

definition run_report :: "config \<Rightarrow> interp \<Rightarrow> (string \<times> int) list" where
  "run_report cfg s = (if enable_metrics cfg then metrics_print (metrics_of s) else [])"

subsection \<open>Linear lookup and plan compilation\<close>

text \<open>The inner loop of \<open>_lookup_with_steps\<close> over the keys of \<open>c.methods\<close>; the keys of a
  dict are distinct, so \<open>c.methods[method_name]\<close> is the value of the entry where the loop
  stops. The three probe counters are bumped whether metrics are enabled or not.\<close>

fun probe_methods ::
  "string \<Rightarrow> (string \<times> string list) list \<Rightarrow> metrics \<Rightarrow> string list option \<times> metrics" where
  "probe_methods method_name [] mt = (None, mt)"
| "probe_methods method_name ((c_method_name, toks) # rest) mt =
     (let mt1 = mt\<lparr> class_probes := class_probes mt + 1 \<rparr>
      in if c_method_name = method_name then (Some toks, mt1)
         else probe_methods method_name rest (mt1\<lparr> resolve_fails := resolve_fails mt1 + 1 \<rparr>))"

partial_function (option) lookup_with_steps_loop ::
  "class_table \<Rightarrow> classdecl option \<Rightarrow> string \<Rightarrow> nat \<Rightarrow> metrics
     \<Rightarrow> ((string list option \<times> nat) \<times> metrics) option" where
  "lookup_with_steps_loop T c method_name steps mt =
     (case c of
        None \<Rightarrow> Some ((None, steps), mt)
      | Some cd \<Rightarrow>
          (case probe_methods method_name (methods cd) (mt\<lparr> class_jumps := class_jumps mt + 1 \<rparr>) of
             (Some toks, mt') \<Rightarrow> Some ((Some toks, steps), mt')
           | (None, mt') \<Rightarrow> lookup_with_steps_loop T (base_obj T cd) method_name (steps + 1) mt'))"

definition lookup_with_steps ::
  "class_table \<Rightarrow> classdecl \<Rightarrow> string \<Rightarrow> metrics \<Rightarrow> ((string list option \<times> nat) \<times> metrics) option" where
  "lookup_with_steps T start method_name mt =
     lookup_with_steps_loop T (Some start) method_name 0 mt"

text \<open>\<open>_compile_plan\<close> uses \<open>method_name\<close> only in the message of its exception; the vtable
  path passes the text \<open><slot N>\<close> there.\<close>

fun compile_loop ::
  "class_table \<Rightarrow> classdecl \<Rightarrow> string \<Rightarrow> string list \<Rightarrow> method_plan \<Rightarrow> error + method_plan" where
  "compile_loop T runtime method_name [] plan = Inr plan"
| "compile_loop T runtime method_name (tok # toks) plan =
     (if is_int tok then compile_loop T runtime method_name toks (plan @ [(False, py_int tok)])
      else (case field_index T (name runtime) tok of
              None \<Rightarrow> Inl (UnknownFieldInMethod tok)
            | Some idx \<Rightarrow> compile_loop T runtime method_name toks (plan @ [(True, int idx)])))"

definition compile_plan ::
  "class_table \<Rightarrow> classdecl \<Rightarrow> string \<Rightarrow> string list \<Rightarrow> error + method_plan" where
  "compile_plan T runtime method_name tokens = compile_loop T runtime method_name tokens []"

subsection \<open>Metrics updates\<close>

definition with_metrics :: "config \<Rightarrow> (metrics \<Rightarrow> metrics) \<Rightarrow> interp \<Rightarrow> interp" where
  "with_metrics cfg f s = (if enable_metrics cfg then s\<lparr> metrics_of := f (metrics_of s) \<rparr> else s)"

definition count_hit :: "metrics \<Rightarrow> metrics" where
  "count_hit m = m\<lparr> cache_hits := cache_hits m + 1 \<rparr>"

definition count_miss :: "metrics \<Rightarrow> metrics" where
  "count_miss m = m\<lparr> cache_misses := cache_misses m + 1 \<rparr>"

text \<open>\<open>elapsed\<close> is the difference of the two readings of \<open>time.perf_counter_ns\<close>, a value
  the run gets from outside.\<close>

definition count_resolve :: "int \<Rightarrow> metrics \<Rightarrow> metrics" where
  "count_resolve elapsed m =
     m\<lparr> resolve_calls := resolve_calls m + 1, resolve_time_ns := resolve_time_ns m + elapsed \<rparr>"

subsection \<open>Lazily compiled tables\<close>

text \<open>Indexing a list with a slot that is not below its length raises \<open>IndexError\<close> (slots
  are never negative).\<close>

definition vtable_plan ::
  "config \<Rightarrow> class_table \<Rightarrow> int \<Rightarrow> interp \<Rightarrow> classdecl \<Rightarrow> nat \<Rightarrow> error + method_plan \<times> interp" where
  "vtable_plan cfg T elapsed s runtime slot =
     (let plans = class_vtable_plans s (name runtime) in
      if \<not> slot < length plans then Inl PyIndexError
      else (case plans ! slot of
              Some cached \<Rightarrow> Inr (cached, with_metrics cfg count_hit s)
            | None \<Rightarrow>
                (let s1 = with_metrics cfg count_miss s in
                 if \<not> slot < length (vtable_tokens T (name runtime)) then Inl PyIndexError
                 else (case compile_plan T runtime ''<slot>'' (vtable_tokens T (name runtime) ! slot) of
                         Inl e \<Rightarrow> Inl e
                       | Inr plan \<Rightarrow>
                           Inr (plan, with_metrics cfg (count_resolve elapsed)
                                  (s1\<lparr> class_vtable_plans :=
                                          (class_vtable_plans s1)(name runtime := plans[slot := Some plan]) \<rparr>))))))"

fun itable_build ::
  "config \<Rightarrow> class_table \<Rightarrow> classdecl \<Rightarrow> classdecl \<Rightarrow> (string \<times> nat) list
     \<Rightarrow> method_plan option list \<Rightarrow> metrics
     \<Rightarrow> (error + method_plan option list \<times> metrics) option" where
  "itable_build cfg T runtime iface [] plans mt = Some (Inr (plans, mt))"
| "itable_build cfg T runtime iface ((m, slot) # rest) plans mt =
     (case lookup_with_steps T runtime m mt of
        None \<Rightarrow> None
      | Some ((tokens, steps), mt1) \<Rightarrow>
          (case tokens of
             None \<Rightarrow> Some (Inl (ItableMissing (name runtime) (name iface) m))
           | Some toks \<Rightarrow>
               (case compile_plan T runtime m toks of
                  Inl e \<Rightarrow> Some (Inl e)
                | Inr plan \<Rightarrow>
                    if \<not> slot < length plans then Some (Inl PyIndexError)
                    else itable_build cfg T runtime iface rest (plans[slot := Some plan])
                           (if enable_metrics cfg
                            then mt1\<lparr> resolve_steps := resolve_steps mt1 + int steps \<rparr>
                            else mt1))))"

text \<open>The first half of \<open>_itable_plan\<close>: the slot array of the pair (runtime, interface),
  fetched or built.\<close>

definition itable_cache ::
  "config \<Rightarrow> class_table \<Rightarrow> int \<Rightarrow> interp \<Rightarrow> classdecl \<Rightarrow> classdecl
     \<Rightarrow> (error + method_plan option list \<times> interp) option" where
  "itable_cache cfg T elapsed s runtime iface =
     (case class_itable_plans s (name runtime) (name iface) of
        Some cache \<Rightarrow> Some (Inr (cache, with_metrics cfg count_hit s))
      | None \<Rightarrow>
          (let s1 = with_metrics cfg count_miss s;
               slots = method_slot T (name iface)
           in (case itable_build cfg T runtime iface slots (replicate (length slots) None)
                       (metrics_of s1) of
                 None \<Rightarrow> None
               | Some (Inl e) \<Rightarrow> Some (Inl e)
               | Some (Inr (plans, mt)) \<Rightarrow>
                   Some (Inr (plans, with_metrics cfg (count_resolve elapsed)
                     (s1\<lparr> metrics_of := mt,
                          class_itable_plans :=
                            (class_itable_plans s1)(name runtime :=
                               (class_itable_plans s1 (name runtime))(name iface \<mapsto> plans)) \<rparr>))))))"

text \<open>An entry of the slot array that is still \<open>None\<close> would be returned as the plan and
  fail with a \<open>TypeError\<close> when \<open>_exec_call\<close> iterates over it.\<close>

definition itable_plan ::
  "config \<Rightarrow> class_table \<Rightarrow> int \<Rightarrow> interp \<Rightarrow> classdecl \<Rightarrow> classdecl \<Rightarrow> string
     \<Rightarrow> (error + method_plan \<times> interp) option" where
  "itable_plan cfg T elapsed s runtime iface method_name =
     (case itable_cache cfg T elapsed s runtime iface of
        None \<Rightarrow> None
      | Some (Inl e) \<Rightarrow> Some (Inl e)
      | Some (Inr (cache, s')) \<Rightarrow>
          (case map_of (method_slot T (name iface)) method_name of
             None \<Rightarrow> Some (Inl PyKeyError)
           | Some slot \<Rightarrow>
               if \<not> slot < length cache then Some (Inl PyIndexError)
               else (case cache ! slot of
                       None \<Rightarrow> Some (Inl PyTypeError)
                     | Some plan \<Rightarrow> Some (Inr (plan, s')))))"

subsection \<open>\_resolve\_call\_plan\<close>

text \<open>The walk of the fallback path (the \<open>if not dynamic ... else ...\<close> block): the tokens
  found, or \<open>None\<close>, the steps walked and the metrics after the walk.\<close>

definition linear_lookup ::
  "class_table \<Rightarrow> metrics \<Rightarrow> classdecl \<Rightarrow> classdecl \<Rightarrow> string \<Rightarrow> bool
     \<Rightarrow> (error + (string list option \<times> nat) \<times> metrics) option" where
  "linear_lookup T mt view runtime method_name dynamic =
     (if \<not> dynamic then
        (if is_interface view then
           (case implements_interface T runtime view of
              None \<Rightarrow> None
            | Some False \<Rightarrow> Some (Inl (NotImplemented (name runtime) (name view)))
            | Some True \<Rightarrow>
                (case lookup_with_steps T view method_name mt of
                   None \<Rightarrow> None
                 | Some ((tokens, steps), mt1) \<Rightarrow>
                     if tokens = None \<or> tokens = Some []
                     then map_option Inr (lookup_with_steps T runtime method_name mt1)
                     else Some (Inr ((tokens, steps), mt1))))
         else map_option Inr (lookup_with_steps T view method_name mt))
      else
        (if is_interface view then
           (case implements_interface T runtime view of
              None \<Rightarrow> None
            | Some False \<Rightarrow> Some (Inl (NotImplemented (name runtime) (name view)))
            | Some True \<Rightarrow> map_option Inr (lookup_with_steps T runtime method_name mt))
         else map_option Inr (lookup_with_steps T runtime method_name mt)))"

text \<open>The function reads \<open>binding.view_cls\<close> and \<open>binding.inst.cls\<close> and nothing else of the
  binding; the model takes these two as \<open>view\<close> and \<open>runtime\<close>.\<close>

definition resolve_call_plan ::
  "config \<Rightarrow> class_table \<Rightarrow> int \<Rightarrow> interp \<Rightarrow> classdecl \<Rightarrow> classdecl \<Rightarrow> string \<Rightarrow> bool
     \<Rightarrow> (error + method_plan \<times> interp) option" where
  "resolve_call_plan cfg T elapsed s view runtime method_name dynamic =
     (case lookup_method T view method_name of
        None \<Rightarrow> None
      | Some None \<Rightarrow> Some (Inl (MethodNotInView method_name (name view)))
      | Some (Some _) \<Rightarrow>
     (let cache_key = (if dynamic then ''dyn'' else ''static'', name view, name runtime, method_name)
      in
      if dynamic \<and> enable_vtable cfg then
        (if is_interface view then
           (case implements_interface T runtime view of
              None \<Rightarrow> None
            | Some False \<Rightarrow> Some (Inl (NotImplemented (name runtime) (name view)))
            | Some True \<Rightarrow>
                (case itable_plan cfg T elapsed s runtime view method_name of
                   None \<Rightarrow> None
                 | Some (Inl e) \<Rightarrow> Some (Inl e)
                 | Some (Inr (plan, s1)) \<Rightarrow>
                     Some (Inr (plan,
                       with_metrics cfg (\<lambda>m. m\<lparr> itable_uses := itable_uses m + 1 \<rparr>) s1))))
         else
           (case is_subclass_of T runtime view of
              None \<Rightarrow> None
            | Some sub \<Rightarrow>
                if \<not> sub \<and> name runtime \<noteq> name view
                then Some (Inl (NotSubclass (name runtime) (name view)))
                else (case map_of (method_slot T (name view)) method_name of
                        None \<Rightarrow> Some (Inl (InternalNoSlot method_name (name view)))
                      | Some slot \<Rightarrow>
                          (case vtable_plan cfg T elapsed s runtime slot of
                             Inl e \<Rightarrow> Some (Inl e)
                           | Inr (plan, s1) \<Rightarrow>
                               Some (Inr (plan,
                                 with_metrics cfg (\<lambda>m. m\<lparr> vtable_uses := vtable_uses m + 1 \<rparr>) s1))))))
      else
        (case (if enable_cache cfg then plan_cache s cache_key else None) of
           Some plan \<Rightarrow> Some (Inr (plan, with_metrics cfg count_hit s))
         | None \<Rightarrow>
             (let s1 = (if enable_cache cfg then with_metrics cfg count_miss s else s) in
              (case linear_lookup T (metrics_of s1) view runtime method_name dynamic of
                 None \<Rightarrow> None
               | Some (Inl e) \<Rightarrow> Some (Inl e)
               | Some (Inr ((tokens, steps), mt)) \<Rightarrow>
                   (case tokens of
                      None \<Rightarrow> Some (Inl (MethodNotResolved method_name))
                    | Some toks \<Rightarrow>
                        (case compile_plan T runtime method_name toks of
                           Inl e \<Rightarrow> Some (Inl e)
                         | Inr plan \<Rightarrow>
                             (let s2 = with_metrics cfg
                                         (\<lambda>m. (count_resolve elapsed m)
                                                 \<lparr> resolve_steps := resolve_steps m + int steps \<rparr>)
                                         (s1\<lparr> metrics_of := mt \<rparr>);
                                  s3 = (if enable_cache cfg
                                        then s2\<lparr> plan_cache := (plan_cache s2)(cache_key \<mapsto> plan) \<rparr>
                                        else s2)
                              in Some (Inr (plan, s3))))))))))"

subsection \<open>Statements\<close>

definition get_binding :: "interp \<Rightarrow> string \<Rightarrow> error + var_binding" where
  "get_binding s n = (case map_of (env s) n of None \<Rightarrow> Inl (UnknownVariable n) | Some b \<Rightarrow> Inr b)"

text \<open>\<open>inst.values[v]\<close> with Python's indexing: a negative index counts from the end.\<close>

definition py_index :: "int list \<Rightarrow> int \<Rightarrow> error + int" where
  "py_index xs i =
     (let n = int (length xs); j = (if i < 0 then i + n else i)
      in if 0 \<le> j \<and> j < n then Inr (xs ! nat j) else Inl PyIndexError)"

fun eval_plan :: "pyinstance \<Rightarrow> method_plan \<Rightarrow> int list \<Rightarrow> error + int list" where
  "eval_plan obj [] out = Inr out"
| "eval_plan obj ((is_field, v) # plan) out =
     (if is_field
      then (case py_index (inst_values obj) v of
              Inl e \<Rightarrow> Inl e
            | Inr x \<Rightarrow> eval_plan obj plan (out @ [x]))
      else eval_plan obj plan (out @ [v]))"

definition exec_call ::
  "config \<Rightarrow> class_table \<Rightarrow> int \<Rightarrow> interp \<Rightarrow> string \<Rightarrow> string \<Rightarrow> bool \<Rightarrow> (error + interp) option" where
  "exec_call cfg T elapsed s var_part method_name dynamic =
     (case get_binding s var_part of
        Inl e \<Rightarrow> Some (Inl e)
      | Inr binding \<Rightarrow>
          (case resolve_call_plan cfg T elapsed s (view_cls binding)
                  (cls (store s (inst binding))) method_name dynamic of
             None \<Rightarrow> None
           | Some (Inl e) \<Rightarrow> Some (Inl e)
           | Some (Inr (plan, s1)) \<Rightarrow>
               (case eval_plan (store s1 (inst binding)) plan [] of
                  Inl e \<Rightarrow> Some (Inl e)
                | Inr vs \<Rightarrow> Some (Inr (s1\<lparr> printed := printed s1 @ [Values vs] \<rparr>)))))"

text \<open>\<open>_instantiate\<close> returns the interpreter as the call leaves it together with the
  reference or the exception, so that the heap after a failed call can be spoken of.\<close>

definition instantiate ::
  "class_table \<Rightarrow> interp \<Rightarrow> string \<Rightarrow> int list \<Rightarrow> (error + nat) \<times> interp" where
  "instantiate T s class_name args =
     (case lookup_type (types T) class_name of
        None \<Rightarrow> (Inl (UnknownClass class_name), s)
      | Some c \<Rightarrow>
          if is_interface c then (Inl InstantiateInterface, s)
          else if length (all_fields T c) \<noteq> length args
          then (Inl (ArityMismatch class_name (length (all_fields T c)) (length args)), s)
          else (let a = next_id s
                in (Inr a, s\<lparr> store := (store s)(a := \<lparr> cls = c, inst_values = args \<rparr>),
                              next_id := a + 1,
                              heap := heap s @ [a] \<rparr>)))"

definition clone :: "interp \<Rightarrow> nat \<Rightarrow> nat \<times> interp" where
  "clone s src =
     (let a = next_id s
      in (a, s\<lparr> store := (store s)(a := store s src), next_id := a + 1, heap := heap s @ [a] \<rparr>))"

definition exec_let_new :: "class_table \<Rightarrow> interp \<Rightarrow> string \<Rightarrow> string \<Rightarrow> int list \<Rightarrow> error + interp" where
  "exec_let_new T s var_name cls_name args =
     (case instantiate T s cls_name args of
        (Inl e, s') \<Rightarrow> Inl e
      | (Inr a, s') \<Rightarrow>
          Inr (s'\<lparr> env := AList.update var_name \<lparr> inst = a, view_cls = cls (store s' a) \<rparr> (env s') \<rparr>))"

definition exec_let_clone :: "interp \<Rightarrow> string \<Rightarrow> string \<Rightarrow> error + interp" where
  "exec_let_clone s var_name src_name =
     (case get_binding s src_name of
        Inl e \<Rightarrow> Inl e
      | Inr src_binding \<Rightarrow>
          (case clone s (inst src_binding) of
             (a, s') \<Rightarrow>
               Inr (s'\<lparr> env := AList.update var_name
                                 \<lparr> inst = a, view_cls = view_cls src_binding \<rparr> (env s') \<rparr>)))"

definition exec_let_alias :: "interp \<Rightarrow> string \<Rightarrow> string \<Rightarrow> error + interp" where
  "exec_let_alias s var_name src_name =
     (case get_binding s src_name of
        Inl e \<Rightarrow> Inl e
      | Inr src_binding \<Rightarrow>
          Inr (s\<lparr> env := AList.update var_name
                           \<lparr> inst = inst src_binding, view_cls = view_cls src_binding \<rparr> (env s) \<rparr>))"

definition exec_free :: "interp \<Rightarrow> string \<Rightarrow> error + interp" where
  "exec_free s n =
     (if map_of (env s) n = None then Inl (UnknownVariable n)
      else Inr (s\<lparr> env := AList.delete n (env s) \<rparr>))"

definition gc_collect :: "config \<Rightarrow> interp \<Rightarrow> interp" where
  "gc_collect cfg s =
     (let roots = set (map (\<lambda>(n, b). inst b) (env s));
          before = length (heap s);
          s1 = s\<lparr> heap := filter (\<lambda>x. x \<in> roots) (heap s) \<rparr>;
          collected = int before - int (length (heap s1))
      in with_metrics cfg
           (\<lambda>m. m\<lparr> gc_runs := gc_runs m + 1, gc_collected := gc_collected m + collected \<rparr>) s1)"

text \<open>The statement \<open>gc\<close>.\<close>

definition exec_gc :: "config \<Rightarrow> interp \<Rightarrow> interp" where
  "exec_gc cfg s = (if enable_gc cfg then gc_collect cfg s else s)"

text \<open>\<open>_exec_is\<close>, after the statement has been split at \<open>" is "\<close> into the two names.\<close>

definition exec_is :: "class_table \<Rightarrow> interp \<Rightarrow> string \<Rightarrow> string \<Rightarrow> interp option" where
  "exec_is T s var_name type_name =
     (case (map_of (env s) var_name, lookup_type (types T) type_name) of
        (Some binding, Some t) \<Rightarrow>
          (case (if is_interface t then implements_interface T (cls (store s (inst binding))) t
                 else is_subclass_of T (cls (store s (inst binding))) t) of
             None \<Rightarrow> None
           | Some r \<Rightarrow> Some (s\<lparr> printed := printed s @ [Text (if r then ''IS'' else ''ISN'T'')] \<rparr>))
      | _ \<Rightarrow> Some (s\<lparr> printed := printed s @ [Text ''ISN'T''] \<rparr>))"

section \<open>Vocabulary of the properties\<close>

text \<open>A base chain that ends: the base links from \<open>n\<close> reach a type without base.\<close>

inductive wf_chain :: "(string \<Rightarrow> string option) \<Rightarrow> string \<Rightarrow> bool" for bs where
  root: "bs n = None \<Longrightarrow> wf_chain bs n"
| step: "bs n = Some b \<Longrightarrow> wf_chain bs b \<Longrightarrow> wf_chain bs n"

text \<open>The layout equation of a class: its full layout is that of its base followed by its
  own fields, and its index map is computed from that layout.\<close>

definition lay_ok :: "class_table \<Rightarrow> classdecl \<Rightarrow> bool" where
  "lay_ok T t \<longleftrightarrow>
     all_fields_cache T (name t) =
       (case base T (name t) of None \<Rightarrow> [] | Some b \<Rightarrow> all_fields_cache T b) @ fields_decl t
     \<and> field_index T (name t) = index_map (all_fields_cache T (name t))"

text \<open>The invariant of the layout loop over the set \<open>done\<close>: every finished name is a class
  with the layout equation, its base is finished too, and its base chain ends.\<close>

definition lay_inv :: "class_table \<Rightarrow> string set \<Rightarrow> bool" where
  "lay_inv T d \<longleftrightarrow>
     (\<forall>n\<in>d. \<exists>t. lookup_type (types T) n = Some t \<and> \<not> is_interface t \<and> lay_ok T t
        \<and> (\<forall>b. base T n = Some b \<longrightarrow> b \<in> d) \<and> wf_chain (base T) n)"

text \<open>The vtable equation of a class: slot map and vtable are what the loop over its own
  methods makes of those of the base, and the plan array is as long and empty.\<close>

definition vt_ok :: "class_table \<Rightarrow> classdecl \<Rightarrow> bool" where
  "vt_ok T t \<longleftrightarrow>
     (method_slot T (name t), vtable_tokens T (name t)) =
        fold add_method (methods t)
          (case base T (name t) of None \<Rightarrow> ([], []) | Some b \<Rightarrow> (method_slot T b, vtable_tokens T b))
     \<and> vtable_plans T (name t) = replicate (length (vtable_tokens T (name t))) None"

text \<open>The invariant of the vtable loop over the set \<open>done\<close>.\<close>

definition vt_inv :: "class_table \<Rightarrow> string set \<Rightarrow> bool" where
  "vt_inv T d \<longleftrightarrow>
     (\<forall>n\<in>d. \<exists>t. lookup_type (types T) n = Some t \<and> \<not> is_interface t \<and> vt_ok T t
        \<and> (\<forall>b. base T n = Some b \<longrightarrow> b \<in> d))"

text \<open>What a successful run of the linker leaves behind, proved below as \<open>link_linked\<close>.\<close>

definition linked :: "classdecl list \<Rightarrow> class_table \<Rightarrow> bool" where
  "linked D T \<longleftrightarrow>
     types T = D \<and> distinct (map name D) \<and>
     (\<forall>n. n \<notin> name ` set D \<longrightarrow> base T n = None) \<and>
     (\<forall>t\<in>set D.
        if is_interface t
        then base T (name t) = None \<and> all_fields_cache T (name t) = []
             \<and> field_index T (name t) = Map.empty \<and> method_slot T (name t) = interface_slots t
        else base T (name t) = base_name t
             \<and> (\<forall>b. base T (name t) = Some b \<longrightarrow> (\<exists>bd\<in>set D. name bd = b \<and> \<not> is_interface bd))
             \<and> wf_chain (base T) (name t)
             \<and> interfaces T (name t) = interfaces_names t
             \<and> (\<forall>i\<in>set (interfaces_names t). \<exists>d\<in>set D. name d = i \<and> is_interface d)
             \<and> lay_ok T t
             \<and> (\<forall>b. base T (name t) = Some b \<longrightarrow>
                    set (fields_decl t) \<inter> set (all_fields_cache T b) = {})
             \<and> vt_ok T t)"

text \<open>A slot map and a vtable that fit: the slots, in insertion order, are the indices of
  the vtable, and no method name occurs twice.\<close>

definition slots_ok :: "(string \<times> nat) list \<times> string list list \<Rightarrow> bool" where
  "slots_ok st \<longleftrightarrow> map snd (fst st) = [0..<length (snd st)] \<and> distinct (map fst (fst st))"

text \<open>\<open>a\<close> is \<open>c\<close> or one of the types reached from \<open>c\<close> by base links.\<close>

inductive ancestor :: "class_table \<Rightarrow> classdecl \<Rightarrow> classdecl \<Rightarrow> bool" for T where
  self: "ancestor T c c"
| up: "base_obj T c = Some b \<Longrightarrow> ancestor T b a \<Longrightarrow> ancestor T c a"

text \<open>The slot map and the vtable a class starts from: those of its base, or empty ones.\<close>

definition vt_start :: "class_table \<Rightarrow> classdecl \<Rightarrow> (string \<times> nat) list \<times> string list list" where
  "vt_start T t =
     (case base T (name t) of None \<Rightarrow> ([], []) | Some b \<Rightarrow> (method_slot T b, vtable_tokens T b))"

text \<open>The claim's words for \<open>is\<close>: the runtime type equals or is a subclass of the named
  class, or implements the named interface, that is, the type itself or one of its
  ancestors lists the interface.\<close>

definition is_a :: "class_table \<Rightarrow> classdecl \<Rightarrow> classdecl \<Rightarrow> bool" where
  "is_a T rt t =
     (if is_interface t then (\<exists>a. ancestor T rt a \<and> name t \<in> set (interfaces T (name a)))
      else (\<exists>a. ancestor T rt a \<and> name a = name t))"

text \<open>The interpreter after \<open>_exec_is\<close> has printed its line.\<close>

definition say :: "interp \<Rightarrow> bool \<Rightarrow> interp" where
  "say s r = s\<lparr> printed := printed s @ [Text (if r then ''IS'' else ''ISN'T'')] \<rparr>"

text \<open>The objects referenced by some binding of the environment.\<close>

definition roots :: "interp \<Rightarrow> nat set" where
  "roots s = (\<lambda>(n, b). inst b) ` set (env s)"

text \<open>\<open>p\<close> is the plan of the linear walk from the runtime type: the walk finds tokens for
  the method and they compile, against the runtime type, to \<open>p\<close>.\<close>

definition dyn_plan :: "class_table \<Rightarrow> classdecl \<Rightarrow> string \<Rightarrow> method_plan \<Rightarrow> bool" where
  "dyn_plan T runtime m p \<longleftrightarrow>
     (\<exists>toks. lookup_method_loop T (Some runtime) m = Some (Some toks)
        \<and> compile_plan T runtime m toks = Inr p)"

text \<open>What the three caches may hold: a compiled vtable slot is the plan of the tokens at
  that slot, a compiled itable entry and an entry of the global cache for a dynamic call are
  plans of the linear walk. A new interpreter on a linked table starts with such caches, and
  every resolution keeps them so.\<close>

definition vt_cache_ok :: "class_table \<Rightarrow> (string \<Rightarrow> method_plan option list) \<Rightarrow> bool" where
  "vt_cache_ok T vp \<longleftrightarrow>
     (\<forall>c\<in>set (types T). \<forall>slot p.
        \<not> is_interface c \<and> slot < length (vp (name c)) \<and> vp (name c) ! slot = Some p \<longrightarrow>
        slot < length (vtable_tokens T (name c))
        \<and> compile_plan T c ''<slot>'' (vtable_tokens T (name c) ! slot) = Inr p)"

definition it_cache_ok ::
  "class_table \<Rightarrow> (string \<Rightarrow> (string \<rightharpoonup> method_plan option list)) \<Rightarrow> bool" where
  "it_cache_ok T ip \<longleftrightarrow>
     (\<forall>c\<in>set (types T). \<forall>i\<in>set (types T). \<forall>cache m slot p.
        ip (name c) (name i) = Some cache \<and> map_of (method_slot T (name i)) m = Some slot
        \<and> slot < length cache \<and> cache ! slot = Some p \<longrightarrow> dyn_plan T c m p)"

definition pc_ok ::
  "class_table \<Rightarrow> ((string \<times> string \<times> string \<times> string) \<rightharpoonup> method_plan) \<Rightarrow> bool" where
  "pc_ok T pc \<longleftrightarrow>
     (\<forall>v\<in>set (types T). \<forall>c\<in>set (types T). \<forall>m p.
        pc (''dyn'', name v, name c, m) = Some p \<longrightarrow> dyn_plan T c m p)"

definition caches_ok :: "class_table \<Rightarrow> interp \<Rightarrow> bool" where
  "caches_ok T s \<longleftrightarrow>
     vt_cache_ok T (class_vtable_plans s) \<and> it_cache_ok T (class_itable_plans s)
     \<and> pc_ok T (plan_cache s)"

section \<open>An example program\<close>

text \<open>An interface \<open>I\<close> that requires \<open>m\<close>, a class \<open>A\<close> with field \<open>a\<close> implementing \<open>I\<close>, and a
  class \<open>B\<close> derived from \<open>A\<close>, declared before it, that adds field \<open>b\<close>, a method \<open>n\<close>, and
  overrides \<open>m\<close>.\<close>

definition ex_I :: classdecl where
  "ex_I = \<lparr> name = ''I'', is_interface = True, base_name = None, interfaces_names = [],
            fields_decl = [], methods = [(''m'', [])] \<rparr>"

definition ex_A :: classdecl where
  "ex_A = \<lparr> name = ''A'', is_interface = False, base_name = None, interfaces_names = [''I''],
            fields_decl = [''a''], methods = [(''m'', [''a'', ''1''])] \<rparr>"

definition ex_B :: classdecl where
  "ex_B = \<lparr> name = ''B'', is_interface = False, base_name = Some ''A'', interfaces_names = [],
            fields_decl = [''b''], methods = [(''n'', [''a'']), (''m'', [''b''])] \<rparr>"

definition ex_types :: "classdecl list" where
  "ex_types = [ex_B, ex_I, ex_A]"

definition ex_table :: class_table where
  "ex_table = (case resolve_and_link ex_types of Some (Inr T) \<Rightarrow> T | _ \<Rightarrow> new_table [])"

definition ex_mem :: "nat \<Rightarrow> pyinstance" where
  "ex_mem = (\<lambda>_. \<lparr> cls = ex_I, inst_values = [] \<rparr>)"

definition ex_s0 :: interp where
  "ex_s0 = new_interp ex_table ex_mem"

definition ex_s1 :: interp where
  "ex_s1 = (case exec_let_new ex_table ex_s0 ''x'' ''B'' [5, 6] of Inr s \<Rightarrow> s | Inl e \<Rightarrow> ex_s0)"

definition ex_cfg :: config where
  "ex_cfg = \<lparr> enable_metrics = True, enable_gc = True, enable_vtable = False, enable_cache = True \<rparr>"

definition ex_cfg_vtable :: config where
  "ex_cfg_vtable = \<lparr> enable_metrics = True, enable_gc = True, enable_vtable = True, enable_cache = True \<rparr>"

definition ex_cfg_quiet :: config where
  "ex_cfg_quiet = \<lparr> enable_metrics = False, enable_gc = True, enable_vtable = False, enable_cache = True \<rparr>"

definition ex_s2 :: interp where
  "ex_s2 = (case resolve_call_plan ex_cfg ex_table 7 ex_s1 ex_B ex_B ''m'' False of
              Some (Inr (plan, s)) \<Rightarrow> s | _ \<Rightarrow> ex_s1)"

definition ex_freed :: interp where
  "ex_freed = ex_s1\<lparr> env := [] \<rparr>"

definition ex_t1 :: interp where
  "ex_t1 = (case exec_let_new ex_table ex_s1 ''x'' ''B'' [7, 8] of Inr s \<Rightarrow> s | Inl e \<Rightarrow> ex_s1)"

definition ex_t2 :: interp where
  "ex_t2 = ex_t1\<lparr> env := [] \<rparr>"

definition ex_fast :: interp where
  "ex_fast = (case resolve_call_plan ex_cfg_vtable ex_table 3 ex_s1 ex_A ex_B ''m'' True of
                Some (Inr (plan, s)) \<Rightarrow> s | _ \<Rightarrow> ex_s1)"

definition ex_slow :: interp where
  "ex_slow = (case resolve_call_plan ex_cfg ex_table 4 ex_s1 ex_A ex_B ''m'' True of
                Some (Inr (plan, s)) \<Rightarrow> s | _ \<Rightarrow> ex_s1)"

definition ex_fast_iface :: interp where
  "ex_fast_iface = (case resolve_call_plan ex_cfg_vtable ex_table 3 ex_s1 ex_I ex_B ''m'' True of
                Some (Inr (plan, s)) \<Rightarrow> s | _ \<Rightarrow> ex_s1)"

definition ex_slow_iface :: interp where
  "ex_slow_iface = (case resolve_call_plan ex_cfg ex_table 4 ex_s1 ex_I ex_B ''m'' True of
                Some (Inr (plan, s)) \<Rightarrow> s | _ \<Rightarrow> ex_s1)"

section \<open>What the linker establishes\<close>

lemma lookup_type_Some: "lookup_type D n = Some t \<Longrightarrow> t \<in> set D \<and> name t = n"
  by (auto simp: lookup_type_def find_Some_iff)

lemma lookup_type_distinct:
  "distinct (map name D) \<Longrightarrow> t \<in> set D \<Longrightarrow> lookup_type D (name t) = Some t"
  by (induction D) (auto simp: lookup_type_def)

lemma lookup_type_None: "lookup_type D n = None \<longleftrightarrow> n \<notin> name ` set D"
  by (auto simp: lookup_type_def find_None_iff)

lemma compute_layout_frame [simp]:
  "types (compute_layout T t) = types T" "base (compute_layout T t) = base T"
  "interfaces (compute_layout T t) = interfaces T"
  "method_slot (compute_layout T t) = method_slot T"
  "vtable_tokens (compute_layout T t) = vtable_tokens T"
  "vtable_plans (compute_layout T t) = vtable_plans T"
  by (simp_all add: compute_layout_def Let_def)

lemma compute_layout_other:
  "n \<noteq> name t \<Longrightarrow> all_fields_cache (compute_layout T t) n = all_fields_cache T n
     \<and> field_index (compute_layout T t) n = field_index T n"
  by (simp add: compute_layout_def Let_def)

lemma compute_layout_est:
  "\<not> is_interface t \<Longrightarrow> base T (name t) \<noteq> Some (name t) \<Longrightarrow> lay_ok (compute_layout T t) t"
  by (auto simp: lay_ok_def compute_layout_def Let_def split: option.splits)

lemma compute_layout_pres:
  "name u \<noteq> name t \<Longrightarrow> base T (name u) \<noteq> Some (name t) \<Longrightarrow> lay_ok T u
     \<Longrightarrow> lay_ok (compute_layout T t) u"
  by (auto simp: lay_ok_def compute_layout_def Let_def split: option.splits)

lemma layout_pass_frame:
  "layout_pass ns (T, d, r, p) = (T', d', r', p') \<Longrightarrow>
     types T' = types T \<and> base T' = base T \<and> interfaces T' = interfaces T
     \<and> method_slot T' = method_slot T \<and> vtable_tokens T' = vtable_tokens T
     \<and> vtable_plans T' = vtable_plans T"
proof (induction ns arbitrary: T d r p)
  case Nil
  then show ?case by simp
next
  case (Cons n ns)
  show ?case
  proof (cases "lookup_type (types T) n")
    case None
    with Cons.prems have "layout_pass ns (T, d, r, p) = (T', d', r', p')" by simp
    then show ?thesis by (rule Cons.IH)
  next
    case (Some t)
    show ?thesis
    proof (cases "case base T (name t) of None \<Rightarrow> True | Some b \<Rightarrow> b \<in> d")
      case True
      with Some Cons.prems
      have "layout_pass ns (compute_layout T t, insert n d, removeAll n r, True) = (T', d', r', p')"
        by simp
      from Cons.IH [OF this] show ?thesis by simp
    next
      case False
      with Some Cons.prems have "layout_pass ns (T, d, r, p) = (T', d', r', p')" by simp
      then show ?thesis by (rule Cons.IH)
    qed
  qed
qed

lemma layout_pass_sets:
  "layout_pass ns (T, d, r, p) = (T', d', r', p') \<Longrightarrow>
     d \<subseteq> d' \<and> d' \<subseteq> d \<union> set ns \<and> set r' \<subseteq> set r \<and> set r - d' \<subseteq> set r'
     \<and> set r' \<inter> (d' - d) = {} \<and> (distinct r \<longrightarrow> distinct r')"
proof (induction ns arbitrary: T d r p)
  case Nil
  then show ?case by auto
next
  case (Cons n ns)
  show ?case
  proof (cases "lookup_type (types T) n")
    case None
    with Cons.prems have "layout_pass ns (T, d, r, p) = (T', d', r', p')" by simp
    from Cons.IH [OF this] show ?thesis by auto
  next
    case (Some t)
    show ?thesis
    proof (cases "case base T (name t) of None \<Rightarrow> True | Some b \<Rightarrow> b \<in> d")
      case True
      with Some Cons.prems
      have "layout_pass ns (compute_layout T t, insert n d, removeAll n r, True) = (T', d', r', p')"
        by simp
      from Cons.IH [OF this] show ?thesis by (auto simp: distinct_removeAll)
    next
      case False
      with Some Cons.prems have "layout_pass ns (T, d, r, p) = (T', d', r', p')" by simp
      from Cons.IH [OF this] show ?thesis by auto
    qed
  qed
qed

lemma layout_pass_other:
  "layout_pass ns (T, d, r, p) = (T', d', r', p') \<Longrightarrow> n \<notin> set ns \<Longrightarrow>
     all_fields_cache T' n = all_fields_cache T n \<and> field_index T' n = field_index T n"
proof (induction ns arbitrary: T d r p)
  case Nil
  then show ?case by simp
next
  case (Cons m ns)
  from Cons.prems(2) have nm: "n \<noteq> m" and nns: "n \<notin> set ns" by auto
  show ?case
  proof (cases "lookup_type (types T) m")
    case None
    with Cons.prems have "layout_pass ns (T, d, r, p) = (T', d', r', p')" by simp
    from Cons.IH [OF this nns] show ?thesis .
  next
    case (Some t)
    then have nt: "name t = m" by (simp add: lookup_type_Some)
    show ?thesis
    proof (cases "case base T (name t) of None \<Rightarrow> True | Some b \<Rightarrow> b \<in> d")
      case True
      with Some Cons.prems
      have "layout_pass ns (compute_layout T t, insert m d, removeAll m r, True) = (T', d', r', p')"
        by simp
      from Cons.IH [OF this nns] compute_layout_other [of n t T] nm nt show ?thesis by simp
    next
      case False
      with Some Cons.prems have "layout_pass ns (T, d, r, p) = (T', d', r', p')" by simp
      from Cons.IH [OF this nns] show ?thesis .
    qed
  qed
qed

lemma lay_inv_step:
  assumes inv: "lay_inv T d" and lk: "lookup_type (types T) n = Some t"
    and cls: "\<not> is_interface t" and nd: "n \<notin> d"
    and ok: "case base T (name t) of None \<Rightarrow> True | Some b \<Rightarrow> b \<in> d"
  shows "lay_inv (compute_layout T t) (insert n d)"
proof -
  from lk have nt: "name t = n" by (simp add: lookup_type_Some)
  have self: "base T (name t) \<noteq> Some (name t)"
    using ok nd nt by (auto split: option.splits)
  have wf: "wf_chain (base T) n"
  proof (cases "base T n")
    case None
    then show ?thesis by (rule wf_chain.root)
  next
    case (Some b)
    with ok nt have "b \<in> d" by simp
    with inv have "wf_chain (base T) b" by (auto simp: lay_inv_def)
    with Some show ?thesis by (rule wf_chain.step)
  qed
  show ?thesis
    unfolding lay_inv_def
  proof
    fix m assume m: "m \<in> insert n d"
    show "\<exists>u. lookup_type (types (compute_layout T t)) m = Some u \<and> \<not> is_interface u
            \<and> lay_ok (compute_layout T t) u
            \<and> (\<forall>b. base (compute_layout T t) m = Some b \<longrightarrow> b \<in> insert n d)
            \<and> wf_chain (base (compute_layout T t)) m"
    proof (cases "m = n")
      case True
      with lk cls self wf ok nt show ?thesis
        by (auto simp: compute_layout_est split: option.splits)
    next
      case False
      with m have md: "m \<in> d" by simp
      with inv obtain u where u: "lookup_type (types T) m = Some u" "\<not> is_interface u"
        "lay_ok T u" "\<forall>b. base T m = Some b \<longrightarrow> b \<in> d" "wf_chain (base T) m"
        by (auto simp: lay_inv_def)
      from u(1) have nu: "name u = m" by (simp add: lookup_type_Some)
      have "base T (name u) \<noteq> Some (name t)" using u(4) nd nu nt by auto
      with u False nu nt have "lay_ok (compute_layout T t) u"
        by (intro compute_layout_pres) auto
      with u show ?thesis by auto
    qed
  qed
qed

lemma layout_pass_inv:
  "layout_pass ns (T, d, r, p) = (T', d', r', p') \<Longrightarrow> lay_inv T d \<Longrightarrow> distinct ns
     \<Longrightarrow> set ns \<inter> d = {}
     \<Longrightarrow> \<forall>n\<in>set ns. \<forall>t. lookup_type (types T) n = Some t \<longrightarrow> \<not> is_interface t
     \<Longrightarrow> lay_inv T' d'"
proof (induction ns arbitrary: T d r p)
  case Nil
  then show ?case by simp
next
  case (Cons n ns)
  from Cons.prems have dist: "distinct ns" and nns: "n \<notin> set ns" and nd: "n \<notin> d"
    and disj: "set ns \<inter> d = {}" by auto
  show ?case
  proof (cases "lookup_type (types T) n")
    case None
    with Cons.prems have "layout_pass ns (T, d, r, p) = (T', d', r', p')" by simp
    from Cons.IH [OF this Cons.prems(2) dist disj] Cons.prems(5) show ?thesis by simp
  next
    case (Some t)
    with Cons.prems(5) have cls: "\<not> is_interface t" by simp
    show ?thesis
    proof (cases "case base T (name t) of None \<Rightarrow> True | Some b \<Rightarrow> b \<in> d")
      case True
      with Some Cons.prems
      have run: "layout_pass ns (compute_layout T t, insert n d, removeAll n r, True) = (T', d', r', p')"
        by simp
      have inv': "lay_inv (compute_layout T t) (insert n d)"
        using Cons.prems(2) Some cls nd True by (rule lay_inv_step)
      have disj': "set ns \<inter> insert n d = {}" using disj nns by auto
      from Cons.IH [OF run inv' dist disj'] Cons.prems(5) show ?thesis by simp
    next
      case False
      with Some Cons.prems have "layout_pass ns (T, d, r, p) = (T', d', r', p')" by simp
      from Cons.IH [OF this Cons.prems(2) dist disj] Cons.prems(5) show ?thesis by simp
    qed
  qed
qed

lemma layout_loop_inv:
  "layout_loop T d r = Inr T' \<Longrightarrow> lay_inv T d \<Longrightarrow> distinct r \<Longrightarrow> set r \<inter> d = {}
     \<Longrightarrow> \<forall>n\<in>set r. \<forall>t. lookup_type (types T) n = Some t \<longrightarrow> \<not> is_interface t
     \<Longrightarrow> (\<exists>d'. lay_inv T' d' \<and> d \<union> set r \<subseteq> d')
         \<and> types T' = types T \<and> base T' = base T \<and> interfaces T' = interfaces T
         \<and> method_slot T' = method_slot T \<and> vtable_tokens T' = vtable_tokens T
         \<and> vtable_plans T' = vtable_plans T
         \<and> (\<forall>n. n \<notin> set r \<longrightarrow> all_fields_cache T' n = all_fields_cache T n
                               \<and> field_index T' n = field_index T n)"
proof (induction T d r rule: layout_loop.induct)
  case (1 T d r)
  show ?case
  proof (cases "r = []")
    case True
    with "1.prems" show ?thesis by auto
  next
    case False
    obtain T1 d1 r1 p1 where pass: "layout_pass r (T, d, r, False) = (T1, d1, r1, p1)"
      by (metis prod_cases4)
    with False "1.prems"(1) have p1: "p1" and rec: "layout_loop T1 d1 r1 = Inr T'"
      by (auto split: if_splits)
    note fr = layout_pass_frame [OF pass]
    note st = layout_pass_sets [OF pass]
    have inv1: "lay_inv T1 d1"
      using pass "1.prems"(2,3,4,5) by (rule layout_pass_inv)
    have dist1: "distinct r1" using st "1.prems"(3) by simp
    have disj1: "set r1 \<inter> d1 = {}" using st "1.prems"(4) by auto
    have cls1: "\<forall>n\<in>set r1. \<forall>t. lookup_type (types T1) n = Some t \<longrightarrow> \<not> is_interface t"
      using st fr "1.prems"(5) by auto
    have IH: "(\<exists>d'. lay_inv T' d' \<and> d1 \<union> set r1 \<subseteq> d')
         \<and> types T' = types T1 \<and> base T' = base T1 \<and> interfaces T' = interfaces T1
         \<and> method_slot T' = method_slot T1 \<and> vtable_tokens T' = vtable_tokens T1
         \<and> vtable_plans T' = vtable_plans T1
         \<and> (\<forall>n. n \<notin> set r1 \<longrightarrow> all_fields_cache T' n = all_fields_cache T1 n
                               \<and> field_index T' n = field_index T1 n)"
      using "1.IH" [OF False pass [symmetric] refl refl _ rec inv1 dist1 disj1 cls1] p1 by simp
    have sub: "d \<union> set r \<subseteq> d1 \<union> set r1" using st by auto
    have oth: "\<forall>n. n \<notin> set r \<longrightarrow> all_fields_cache T' n = all_fields_cache T n
                               \<and> field_index T' n = field_index T n"
    proof (intro allI impI)
      fix n assume n: "n \<notin> set r"
      then have "n \<notin> set r1" using st by auto
      with IH have "all_fields_cache T' n = all_fields_cache T1 n
                               \<and> field_index T' n = field_index T1 n" by simp
      with layout_pass_other [OF pass n] show "all_fields_cache T' n = all_fields_cache T n
                               \<and> field_index T' n = field_index T n" by simp
    qed
    from IH obtain d' where d': "lay_inv T' d'" "d1 \<union> set r1 \<subseteq> d'" by auto
    with sub have "lay_inv T' d' \<and> d \<union> set r \<subseteq> d'" by auto
    then have ex: "\<exists>d'. lay_inv T' d' \<and> d \<union> set r \<subseteq> d'" ..
    from IH fr have "types T' = types T \<and> base T' = base T \<and> interfaces T' = interfaces T
         \<and> method_slot T' = method_slot T \<and> vtable_tokens T' = vtable_tokens T
         \<and> vtable_plans T' = vtable_plans T" by simp
    with ex oth show ?thesis by simp
  qed
qed

lemma build_vtable_frame [simp]:
  "types (build_vtable T t) = types T" "base (build_vtable T t) = base T"
  "interfaces (build_vtable T t) = interfaces T"
  "all_fields_cache (build_vtable T t) = all_fields_cache T"
  "field_index (build_vtable T t) = field_index T"
  by (simp_all add: build_vtable_def Let_def)

lemma build_vtable_other:
  "n \<noteq> name t \<Longrightarrow> method_slot (build_vtable T t) n = method_slot T n
     \<and> vtable_tokens (build_vtable T t) n = vtable_tokens T n
     \<and> vtable_plans (build_vtable T t) n = vtable_plans T n"
  by (simp add: build_vtable_def Let_def)

lemma build_vtable_est:
  "\<not> is_interface t \<Longrightarrow> base T (name t) \<noteq> Some (name t) \<Longrightarrow> vt_ok (build_vtable T t) t"
  by (auto simp: vt_ok_def build_vtable_def Let_def split: option.splits)

lemma build_vtable_pres:
  "name u \<noteq> name t \<Longrightarrow> base T (name u) \<noteq> Some (name t) \<Longrightarrow> vt_ok T u
     \<Longrightarrow> vt_ok (build_vtable T t) u"
  by (auto simp: vt_ok_def build_vtable_def Let_def split: option.splits)

lemma vtable_pass_frame:
  "vtable_pass ns (T, d, r, p) = (T', d', r', p') \<Longrightarrow>
     types T' = types T \<and> base T' = base T \<and> interfaces T' = interfaces T
     \<and> all_fields_cache T' = all_fields_cache T \<and> field_index T' = field_index T"
proof (induction ns arbitrary: T d r p)
  case Nil
  then show ?case by simp
next
  case (Cons n ns)
  show ?case
  proof (cases "lookup_type (types T) n")
    case None
    with Cons.prems have "vtable_pass ns (T, d, r, p) = (T', d', r', p')" by simp
    then show ?thesis by (rule Cons.IH)
  next
    case (Some t)
    show ?thesis
    proof (cases "case base T (name t) of None \<Rightarrow> True | Some b \<Rightarrow> b \<in> d")
      case True
      with Some Cons.prems
      have "vtable_pass ns (build_vtable T t, insert n d, removeAll n r, True) = (T', d', r', p')"
        by simp
      from Cons.IH [OF this] show ?thesis by simp
    next
      case False
      with Some Cons.prems have "vtable_pass ns (T, d, r, p) = (T', d', r', p')" by simp
      then show ?thesis by (rule Cons.IH)
    qed
  qed
qed

lemma vtable_pass_sets:
  "vtable_pass ns (T, d, r, p) = (T', d', r', p') \<Longrightarrow>
     d \<subseteq> d' \<and> d' \<subseteq> d \<union> set ns \<and> set r' \<subseteq> set r \<and> set r - d' \<subseteq> set r'
     \<and> set r' \<inter> (d' - d) = {} \<and> (distinct r \<longrightarrow> distinct r')"
proof (induction ns arbitrary: T d r p)
  case Nil
  then show ?case by auto
next
  case (Cons n ns)
  show ?case
  proof (cases "lookup_type (types T) n")
    case None
    with Cons.prems have "vtable_pass ns (T, d, r, p) = (T', d', r', p')" by simp
    from Cons.IH [OF this] show ?thesis by auto
  next
    case (Some t)
    show ?thesis
    proof (cases "case base T (name t) of None \<Rightarrow> True | Some b \<Rightarrow> b \<in> d")
      case True
      with Some Cons.prems
      have "vtable_pass ns (build_vtable T t, insert n d, removeAll n r, True) = (T', d', r', p')"
        by simp
      from Cons.IH [OF this] show ?thesis by (auto simp: distinct_removeAll)
    next
      case False
      with Some Cons.prems have "vtable_pass ns (T, d, r, p) = (T', d', r', p')" by simp
      from Cons.IH [OF this] show ?thesis by auto
    qed
  qed
qed

lemma vtable_pass_other:
  "vtable_pass ns (T, d, r, p) = (T', d', r', p') \<Longrightarrow> n \<notin> set ns \<Longrightarrow>
     method_slot T' n = method_slot T n \<and> vtable_tokens T' n = vtable_tokens T n
       \<and> vtable_plans T' n = vtable_plans T n"
proof (induction ns arbitrary: T d r p)
  case Nil
  then show ?case by simp
next
  case (Cons m ns)
  from Cons.prems(2) have nm: "n \<noteq> m" and nns: "n \<notin> set ns" by auto
  show ?case
  proof (cases "lookup_type (types T) m")
    case None
    with Cons.prems have "vtable_pass ns (T, d, r, p) = (T', d', r', p')" by simp
    from Cons.IH [OF this nns] show ?thesis .
  next
    case (Some t)
    then have nt: "name t = m" by (simp add: lookup_type_Some)
    show ?thesis
    proof (cases "case base T (name t) of None \<Rightarrow> True | Some b \<Rightarrow> b \<in> d")
      case True
      with Some Cons.prems
      have "vtable_pass ns (build_vtable T t, insert m d, removeAll m r, True) = (T', d', r', p')"
        by simp
      from Cons.IH [OF this nns] build_vtable_other [of n t T] nm nt show ?thesis by simp
    next
      case False
      with Some Cons.prems have "vtable_pass ns (T, d, r, p) = (T', d', r', p')" by simp
      from Cons.IH [OF this nns] show ?thesis .
    qed
  qed
qed

lemma vt_inv_step:
  assumes inv: "vt_inv T d" and lk: "lookup_type (types T) n = Some t"
    and cls: "\<not> is_interface t" and nd: "n \<notin> d"
    and ok: "case base T (name t) of None \<Rightarrow> True | Some b \<Rightarrow> b \<in> d"
  shows "vt_inv (build_vtable T t) (insert n d)"
proof -
  from lk have nt: "name t = n" by (simp add: lookup_type_Some)
  have self: "base T (name t) \<noteq> Some (name t)"
    using ok nd nt by (auto split: option.splits)
  show ?thesis
    unfolding vt_inv_def
  proof
    fix m assume m: "m \<in> insert n d"
    show "\<exists>u. lookup_type (types (build_vtable T t)) m = Some u \<and> \<not> is_interface u
            \<and> vt_ok (build_vtable T t) u
            \<and> (\<forall>b. base (build_vtable T t) m = Some b \<longrightarrow> b \<in> insert n d)"
    proof (cases "m = n")
      case True
      with lk cls self ok nt show ?thesis
        by (auto simp: build_vtable_est split: option.splits)
    next
      case False
      with m have md: "m \<in> d" by simp
      with inv obtain u where u: "lookup_type (types T) m = Some u" "\<not> is_interface u"
        "vt_ok T u" "\<forall>b. base T m = Some b \<longrightarrow> b \<in> d"
        by (auto simp: vt_inv_def)
      from u(1) have nu: "name u = m" by (simp add: lookup_type_Some)
      have "base T (name u) \<noteq> Some (name t)" using u(4) nd nu nt by auto
      with u False nu nt have "vt_ok (build_vtable T t) u"
        by (intro build_vtable_pres) auto
      with u show ?thesis by auto
    qed
  qed
qed

lemma vtable_pass_inv:
  "vtable_pass ns (T, d, r, p) = (T', d', r', p') \<Longrightarrow> vt_inv T d \<Longrightarrow> distinct ns
     \<Longrightarrow> set ns \<inter> d = {}
     \<Longrightarrow> \<forall>n\<in>set ns. \<forall>t. lookup_type (types T) n = Some t \<longrightarrow> \<not> is_interface t
     \<Longrightarrow> vt_inv T' d'"
proof (induction ns arbitrary: T d r p)
  case Nil
  then show ?case by simp
next
  case (Cons n ns)
  from Cons.prems have dist: "distinct ns" and nns: "n \<notin> set ns" and nd: "n \<notin> d"
    and disj: "set ns \<inter> d = {}" by auto
  show ?case
  proof (cases "lookup_type (types T) n")
    case None
    with Cons.prems have "vtable_pass ns (T, d, r, p) = (T', d', r', p')" by simp
    from Cons.IH [OF this Cons.prems(2) dist disj] Cons.prems(5) show ?thesis by simp
  next
    case (Some t)
    with Cons.prems(5) have cls: "\<not> is_interface t" by simp
    show ?thesis
    proof (cases "case base T (name t) of None \<Rightarrow> True | Some b \<Rightarrow> b \<in> d")
      case True
      with Some Cons.prems
      have run: "vtable_pass ns (build_vtable T t, insert n d, removeAll n r, True) = (T', d', r', p')"
        by simp
      have inv': "vt_inv (build_vtable T t) (insert n d)"
        using Cons.prems(2) Some cls nd True by (rule vt_inv_step)
      have disj': "set ns \<inter> insert n d = {}" using disj nns by auto
      from Cons.IH [OF run inv' dist disj'] Cons.prems(5) show ?thesis by simp
    next
      case False
      with Some Cons.prems have "vtable_pass ns (T, d, r, p) = (T', d', r', p')" by simp
      from Cons.IH [OF this Cons.prems(2) dist disj] Cons.prems(5) show ?thesis by simp
    qed
  qed
qed

lemma vtable_loop_inv:
  "vtable_loop T d r = Inr T' \<Longrightarrow> vt_inv T d \<Longrightarrow> distinct r \<Longrightarrow> set r \<inter> d = {}
     \<Longrightarrow> \<forall>n\<in>set r. \<forall>t. lookup_type (types T) n = Some t \<longrightarrow> \<not> is_interface t
     \<Longrightarrow> (\<exists>d'. vt_inv T' d' \<and> d \<union> set r \<subseteq> d')
         \<and> types T' = types T \<and> base T' = base T \<and> interfaces T' = interfaces T
         \<and> all_fields_cache T' = all_fields_cache T \<and> field_index T' = field_index T
         \<and> (\<forall>n. n \<notin> set r \<longrightarrow> method_slot T' n = method_slot T n
                               \<and> vtable_tokens T' n = vtable_tokens T n
                               \<and> vtable_plans T' n = vtable_plans T n)"
proof (induction T d r rule: vtable_loop.induct)
  case (1 T d r)
  show ?case
  proof (cases "r = []")
    case True
    with "1.prems" show ?thesis by auto
  next
    case False
    obtain T1 d1 r1 p1 where pass: "vtable_pass r (T, d, r, False) = (T1, d1, r1, p1)"
      by (metis prod_cases4)
    with False "1.prems"(1) have p1: "p1" and rec: "vtable_loop T1 d1 r1 = Inr T'"
      by (auto split: if_splits)
    note fr = vtable_pass_frame [OF pass]
    note st = vtable_pass_sets [OF pass]
    have inv1: "vt_inv T1 d1"
      using pass "1.prems"(2,3,4,5) by (rule vtable_pass_inv)
    have dist1: "distinct r1" using st "1.prems"(3) by simp
    have disj1: "set r1 \<inter> d1 = {}" using st "1.prems"(4) by auto
    have cls1: "\<forall>n\<in>set r1. \<forall>t. lookup_type (types T1) n = Some t \<longrightarrow> \<not> is_interface t"
      using st fr "1.prems"(5) by auto
    have IH: "(\<exists>d'. vt_inv T' d' \<and> d1 \<union> set r1 \<subseteq> d')
         \<and> types T' = types T1 \<and> base T' = base T1 \<and> interfaces T' = interfaces T1
         \<and> all_fields_cache T' = all_fields_cache T1 \<and> field_index T' = field_index T1
         \<and> (\<forall>n. n \<notin> set r1 \<longrightarrow> method_slot T' n = method_slot T1 n
                               \<and> vtable_tokens T' n = vtable_tokens T1 n
                               \<and> vtable_plans T' n = vtable_plans T1 n)"
      using "1.IH" [OF False pass [symmetric] refl refl _ rec inv1 dist1 disj1 cls1] p1 by simp
    have sub: "d \<union> set r \<subseteq> d1 \<union> set r1" using st by auto
    have oth: "\<forall>n. n \<notin> set r \<longrightarrow> method_slot T' n = method_slot T n
                               \<and> vtable_tokens T' n = vtable_tokens T n
                               \<and> vtable_plans T' n = vtable_plans T n"
    proof (intro allI impI)
      fix n assume n: "n \<notin> set r"
      then have "n \<notin> set r1" using st by auto
      with IH have "method_slot T' n = method_slot T1 n
                               \<and> vtable_tokens T' n = vtable_tokens T1 n
                               \<and> vtable_plans T' n = vtable_plans T1 n" by simp
      with vtable_pass_other [OF pass n] show "method_slot T' n = method_slot T n
                               \<and> vtable_tokens T' n = vtable_tokens T n
                               \<and> vtable_plans T' n = vtable_plans T n" by simp
    qed
    from IH obtain d' where d': "vt_inv T' d'" "d1 \<union> set r1 \<subseteq> d'" by auto
    with sub have "vt_inv T' d' \<and> d \<union> set r \<subseteq> d'" by auto
    then have ex: "\<exists>d'. vt_inv T' d' \<and> d \<union> set r \<subseteq> d'" ..
    from IH fr have "types T' = types T \<and> base T' = base T \<and> interfaces T' = interfaces T
         \<and> all_fields_cache T' = all_fields_cache T \<and> field_index T' = field_index T" by simp
    with ex oth show ?thesis by simp
  qed
qed

lemma link_bases_res:
  "link_bases ts T = Inr T' \<Longrightarrow> distinct (map name ts) \<Longrightarrow>
     types T' = types T \<and> interfaces T' = interfaces T
     \<and> all_fields_cache T' = all_fields_cache T \<and> field_index T' = field_index T
     \<and> method_slot T' = method_slot T \<and> vtable_tokens T' = vtable_tokens T
     \<and> vtable_plans T' = vtable_plans T
     \<and> (\<forall>n. base T' n =
            (case lookup_type ts n of
               None \<Rightarrow> base T n
             | Some t \<Rightarrow> if is_interface t \<or> base_name t = None then base T n else base_name t))
     \<and> (\<forall>t\<in>set ts. \<not> is_interface t \<longrightarrow>
            (\<forall>bn. base_name t = Some bn \<longrightarrow>
               (\<exists>b. lookup_type (types T) bn = Some b \<and> \<not> is_interface b)))"
proof (induction ts arbitrary: T)
  case Nil
  then show ?case by (simp add: lookup_type_def)
next
  case (Cons t ts)
  from Cons.prems(2) have dist: "distinct (map name ts)" and fresh: "name t \<notin> name ` set ts"
    by auto
  from fresh have lkt: "lookup_type ts (name t) = None" by (simp add: lookup_type_None)
  have lk_cons: "\<And>n. lookup_type (t # ts) n = (if name t = n then Some t else lookup_type ts n)"
    by (simp add: lookup_type_def)
  show ?case
  proof (cases "is_interface t \<or> base_name t = None")
    case True
    with Cons.prems(1) have run: "link_bases ts T = Inr T'" by (auto split: option.splits)
    from Cons.IH [OF run dist] True lkt show ?thesis
      by (auto simp: lk_cons split: option.splits)
  next
    case False
    then obtain bn where bn: "base_name t = Some bn" and cls: "\<not> is_interface t" by auto
    from Cons.prems(1) bn cls obtain b where b: "lookup_type (types T) bn = Some b"
      "\<not> is_interface b"
      and run: "link_bases ts (T\<lparr> base := (base T)(name t := Some (name b)) \<rparr>) = Inr T'"
      by (auto split: option.splits if_splits)
    from b(1) have nb: "name b = bn" by (simp add: lookup_type_Some)
    note IH = Cons.IH [OF run dist]
    from IH have fr: "types T' = types T \<and> interfaces T' = interfaces T
     \<and> all_fields_cache T' = all_fields_cache T \<and> field_index T' = field_index T
     \<and> method_slot T' = method_slot T \<and> vtable_tokens T' = vtable_tokens T
     \<and> vtable_plans T' = vtable_plans T"
      by simp
    have bs: "\<forall>n. base T' n =
            (case lookup_type (t # ts) n of
               None \<Rightarrow> base T n
             | Some t \<Rightarrow> if is_interface t \<or> base_name t = None then base T n else base_name t)"
    proof
      fix n
      show "base T' n =
            (case lookup_type (t # ts) n of
               None \<Rightarrow> base T n
             | Some t \<Rightarrow> if is_interface t \<or> base_name t = None then base T n else base_name t)"
      proof (cases "name t = n")
        case True
        with IH lkt bn cls nb show ?thesis by (auto simp: lk_cons)
      next
        case False
        with IH show ?thesis by (auto simp: lk_cons split: option.splits)
      qed
    qed
    from IH b bn cls have ex: "\<forall>u\<in>set (t # ts). \<not> is_interface u \<longrightarrow>
            (\<forall>bn. base_name u = Some bn \<longrightarrow>
               (\<exists>b. lookup_type (types T) bn = Some b \<and> \<not> is_interface b))"
      by auto
    from fr bs ex show ?thesis by blast
  qed
qed

lemma resolve_interfaces_res:
  "resolve_interfaces T t inames acc = Inr r \<Longrightarrow>
     r = acc @ inames
     \<and> (\<forall>i\<in>set inames. \<exists>d. lookup_type (types T) i = Some d \<and> is_interface d)"
proof (induction inames arbitrary: acc)
  case Nil
  then show ?case by simp
next
  case (Cons i inames)
  from Cons.prems obtain d where d: "lookup_type (types T) i = Some d" "is_interface d"
    and run: "resolve_interfaces T t inames (acc @ [name d]) = Inr r"
    by (auto split: option.splits if_splits)
  from d(1) have "name d = i" by (simp add: lookup_type_Some)
  with Cons.IH [OF run] d show ?case by auto
qed

lemma resolve_interfaces_types:
  "types T1 = types T \<Longrightarrow> resolve_interfaces T1 t inames acc = resolve_interfaces T t inames acc"
  by (induction inames arbitrary: acc) (auto split: option.splits)

lemma link_interfaces_res:
  "link_interfaces ts T = Inr T' \<Longrightarrow> distinct (map name ts) \<Longrightarrow>
     types T' = types T \<and> base T' = base T
     \<and> all_fields_cache T' = all_fields_cache T \<and> field_index T' = field_index T
     \<and> method_slot T' = method_slot T \<and> vtable_tokens T' = vtable_tokens T
     \<and> vtable_plans T' = vtable_plans T
     \<and> (\<forall>n. interfaces T' n =
            (case lookup_type ts n of
               None \<Rightarrow> interfaces T n
             | Some t \<Rightarrow> if is_interface t then interfaces T n else interfaces_names t))
     \<and> (\<forall>t\<in>set ts. \<not> is_interface t \<longrightarrow>
            (\<forall>i\<in>set (interfaces_names t).
               \<exists>d. lookup_type (types T) i = Some d \<and> is_interface d))"
proof (induction ts arbitrary: T)
  case Nil
  then show ?case by (simp add: lookup_type_def)
next
  case (Cons t ts)
  from Cons.prems(2) have dist: "distinct (map name ts)" and fresh: "name t \<notin> name ` set ts"
    by auto
  from fresh have lkt: "lookup_type ts (name t) = None" by (simp add: lookup_type_None)
  have lk_cons: "\<And>n. lookup_type (t # ts) n = (if name t = n then Some t else lookup_type ts n)"
    by (simp add: lookup_type_def)
  show ?case
  proof (cases "is_interface t")
    case True
    with Cons.prems(1) have run: "link_interfaces ts T = Inr T'" by simp
    from Cons.IH [OF run dist] True lkt show ?thesis
      by (auto simp: lk_cons split: option.splits)
  next
    case False
    with Cons.prems(1) obtain r where r: "resolve_interfaces T t (interfaces_names t) [] = Inr r"
      and run: "link_interfaces ts (T\<lparr> interfaces := (interfaces T)(name t := r) \<rparr>) = Inr T'"
      by (auto split: sum.splits)
    from resolve_interfaces_res [OF r] have req: "r = interfaces_names t"
      and rex: "\<forall>i\<in>set (interfaces_names t). \<exists>d. lookup_type (types T) i = Some d \<and> is_interface d"
      by auto
    note IH = Cons.IH [OF run dist]
    from IH have fr: "types T' = types T \<and> base T' = base T
     \<and> all_fields_cache T' = all_fields_cache T \<and> field_index T' = field_index T
     \<and> method_slot T' = method_slot T \<and> vtable_tokens T' = vtable_tokens T
     \<and> vtable_plans T' = vtable_plans T"
      by simp
    have bs: "\<forall>n. interfaces T' n =
            (case lookup_type (t # ts) n of
               None \<Rightarrow> interfaces T n
             | Some t \<Rightarrow> if is_interface t then interfaces T n else interfaces_names t)"
    proof
      fix n
      show "interfaces T' n =
            (case lookup_type (t # ts) n of
               None \<Rightarrow> interfaces T n
             | Some t \<Rightarrow> if is_interface t then interfaces T n else interfaces_names t)"
      proof (cases "name t = n")
        case True
        with IH lkt False req show ?thesis by (auto simp: lk_cons)
      next
        case ne: False
        with IH show ?thesis by (auto simp: lk_cons split: option.splits)
      qed
    qed
    from IH rex have ex: "\<forall>u\<in>set (t # ts). \<not> is_interface u \<longrightarrow>
            (\<forall>i\<in>set (interfaces_names u).
               \<exists>d. lookup_type (types T) i = Some d \<and> is_interface d)"
      by auto
    from fr bs ex show ?thesis by blast
  qed
qed

lemma check_cycles_res: "check_cycles ts T = Some (Inr T') \<Longrightarrow> T' = T"
  by (induction ts) (auto split: if_splits option.splits bool.splits)

lemma index_map_Nil [simp]: "index_map [] = Map.empty"
  by (simp add: index_map_def)

lemma layout_interfaces_res:
  "layout_interfaces ts T = T' \<Longrightarrow>
     types T' = types T \<and> base T' = base T \<and> interfaces T' = interfaces T
     \<and> method_slot T' = method_slot T \<and> vtable_tokens T' = vtable_tokens T
     \<and> vtable_plans T' = vtable_plans T
     \<and> (\<forall>t\<in>set ts. is_interface t \<longrightarrow>
           all_fields_cache T' (name t) = [] \<and> field_index T' (name t) = Map.empty)
     \<and> (\<forall>n. n \<notin> name ` {t \<in> set ts. is_interface t} \<longrightarrow>
           all_fields_cache T' n = all_fields_cache T n \<and> field_index T' n = field_index T n)"
proof (induction ts arbitrary: T)
  case Nil
  then show ?case by simp
next
  case (Cons t ts)
  let ?T1 = "if is_interface t then compute_layout T t else T"
  from Cons.prems have run: "layout_interfaces ts ?T1 = T'" by simp
  note IH = Cons.IH [OF run]
  have t: "is_interface t \<Longrightarrow> all_fields_cache T' (name t) = [] \<and> field_index T' (name t) = Map.empty"
  proof -
    assume it: "is_interface t"
    show ?thesis
    proof (cases "name t \<in> name ` {u \<in> set ts. is_interface u}")
      case True
      with IH show ?thesis by auto
    next
      case False
      with IH it show ?thesis by (simp add: compute_layout_def)
    qed
  qed
  have oth: "\<And>n. n \<notin> name ` {u \<in> set (t # ts). is_interface u} \<Longrightarrow>
           all_fields_cache T' n = all_fields_cache T n \<and> field_index T' n = field_index T n"
  proof -
    fix n assume n: "n \<notin> name ` {u \<in> set (t # ts). is_interface u}"
    then have "n \<notin> name ` {u \<in> set ts. is_interface u}" by auto
    with IH have "all_fields_cache T' n = all_fields_cache ?T1 n
       \<and> field_index T' n = field_index ?T1 n" by simp
    moreover from n have "is_interface t \<Longrightarrow> n \<noteq> name t" by auto
    ultimately show "all_fields_cache T' n = all_fields_cache T n \<and> field_index T' n = field_index T n"
      by (simp add: compute_layout_other)
  qed
  from IH t oth show ?case by (simp split: if_splits)
qed

lemma check_fields_res:
  "check_fields ts T = Inr T' \<Longrightarrow>
     T' = T \<and> (\<forall>t\<in>set ts. \<not> is_interface t \<longrightarrow>
                 (\<forall>b. base T (name t) = Some b \<longrightarrow>
                    set (fields_decl t) \<inter> set (all_fields_cache T b) = {}))"
proof (induction ts)
  case Nil
  then show ?case by simp
next
  case (Cons t ts)
  show ?case
  proof (cases "is_interface t \<or> base T (name t) = None")
    case True
    with Cons.prems have "check_fields ts T = Inr T'" by (auto split: option.splits)
    from Cons.IH [OF this] True show ?thesis by auto
  next
    case False
    then obtain b where b: "base T (name t) = Some b" and cls: "\<not> is_interface t" by auto
    with Cons.prems have nf: "find (\<lambda>f. f \<in> set (all_fields_cache T b)) (fields_decl t) = None"
      and run: "check_fields ts T = Inr T'"
      by (auto split: option.splits)
    from nf have "set (fields_decl t) \<inter> set (all_fields_cache T b) = {}"
      by (auto simp: find_None_iff)
    with Cons.IH [OF run] b show ?thesis by auto
  qed
qed

lemma slot_interfaces_res:
  "slot_interfaces ts T = T' \<Longrightarrow> distinct (map name ts) \<Longrightarrow>
     types T' = types T \<and> base T' = base T \<and> interfaces T' = interfaces T
     \<and> all_fields_cache T' = all_fields_cache T \<and> field_index T' = field_index T
     \<and> vtable_tokens T' = vtable_tokens T \<and> vtable_plans T' = vtable_plans T
     \<and> (\<forall>n. method_slot T' n =
            (case lookup_type ts n of
               None \<Rightarrow> method_slot T n
             | Some t \<Rightarrow> if is_interface t then interface_slots t else method_slot T n))"
proof (induction ts arbitrary: T)
  case Nil
  then show ?case by (simp add: lookup_type_def)
next
  case (Cons t ts)
  from Cons.prems(2) have dist: "distinct (map name ts)" and fresh: "name t \<notin> name ` set ts"
    by auto
  from fresh have lkt: "lookup_type ts (name t) = None" by (simp add: lookup_type_None)
  have lk_cons: "\<And>n. lookup_type (t # ts) n = (if name t = n then Some t else lookup_type ts n)"
    by (simp add: lookup_type_def)
  let ?T1 = "if \<not> is_interface t then T
        else T\<lparr> method_slot := (method_slot T)(name t := interface_slots t) \<rparr>"
  from Cons.prems have run: "slot_interfaces ts ?T1 = T'" by simp
  note IH = Cons.IH [OF run dist]
  have ms: "\<forall>n. method_slot T' n =
            (case lookup_type (t # ts) n of
               None \<Rightarrow> method_slot T n
             | Some t \<Rightarrow> if is_interface t then interface_slots t else method_slot T n)"
  proof
    fix n
    show "method_slot T' n =
            (case lookup_type (t # ts) n of
               None \<Rightarrow> method_slot T n
             | Some t \<Rightarrow> if is_interface t then interface_slots t else method_slot T n)"
    proof (cases "name t = n")
      case True
      with IH lkt show ?thesis by (auto simp: lk_cons)
    next
      case False
      with IH show ?thesis by (auto simp: lk_cons split: option.splits)
    qed
  qed
  from IH ms show ?case by (simp split: if_splits)
qed

lemma check_fields_same: "check_fields ts T = Inr T' \<Longrightarrow> T' = T"
  by (simp add: check_fields_res)

lemma class_names_set: "set (class_names D) = name ` {t \<in> set D. \<not> is_interface t}"
  by (auto simp: class_names_def)

lemma class_names_distinct: "distinct (map name D) \<Longrightarrow> distinct (class_names D)"
  by (simp add: class_names_def distinct_map_filter)

lemma distinct_name_eq:
  "distinct (map name D) \<Longrightarrow> t \<in> set D \<Longrightarrow> u \<in> set D \<Longrightarrow> name t = name u \<Longrightarrow> t = u"
  by (meson distinct_map inj_onD)

lemma class_names_lookup:
  assumes "distinct (map name D)" and "n \<in> set (class_names D)" and "lookup_type D n = Some t"
  shows "\<not> is_interface t"
proof -
  from assms(2) obtain u where u: "u \<in> set D" "name u = n" "\<not> is_interface u"
    by (auto simp: class_names_set)
  from assms(3) have "t \<in> set D" "name t = n" by (simp_all add: lookup_type_Some)
  with u assms(1) have "t = u" by (auto intro: distinct_name_eq)
  with u show ?thesis by simp
qed

lemma lay_ok_cong:
  "all_fields_cache T' = all_fields_cache T \<Longrightarrow> field_index T' = field_index T
     \<Longrightarrow> base T' = base T \<Longrightarrow> lay_ok T' t = lay_ok T t"
  unfolding lay_ok_def by (erule ssubst, erule ssubst, erule ssubst) (rule refl)

lemma link_linked:
  assumes link: "resolve_and_link D = Some (Inr T)" and dist: "distinct (map name D)"
  shows "linked D T"
proof -
  from link obtain T1 T2 T3 T4 T5 where
    s1: "link_bases D (new_table D) = Inr T1" and
    s2: "link_interfaces D T1 = Inr T2" and
    s3: "check_cycles D T2 = Some (Inr T3)" and
    s4: "layout_loop (layout_interfaces D T3) {} (class_names D) = Inr T4" and
    s5: "check_fields D T4 = Inr T5" and
    s7: "vtable_loop (slot_interfaces D T5) {} (class_names D) = Inr T"
    by (auto simp: resolve_and_link_def split: sum.splits option.splits)
  from s3 have T3: "T3 = T2" by (rule check_cycles_res)
  from s5 have T5: "T5 = T4" by (rule check_fields_same)
  note r1 = link_bases_res [OF s1 dist]
  note r2 = link_interfaces_res [OF s2 dist]
  define L0 where "L0 = layout_interfaces D T2"
  define V0 where "V0 = slot_interfaces D T4"
  have l0: "layout_interfaces D T2 = L0" by (simp add: L0_def)
  have v0: "slot_interfaces D T4 = V0" by (simp add: V0_def)
  note r3 = layout_interfaces_res [OF l0]
  note r6 = slot_interfaces_res [OF v0 dist]
  have ty1: "types T1 = D" using r1 by (simp add: new_table_def)
  have ty2: "types T2 = D" using r2 ty1 by simp
  have tyL: "types L0 = D" using r3 ty2 by simp
  have cd: "distinct (class_names D)" using dist by (rule class_names_distinct)
  have cl: "\<forall>n\<in>set (class_names D). \<forall>t. lookup_type (types L0) n = Some t \<longrightarrow> \<not> is_interface t"
    using class_names_lookup [OF dist] tyL by auto
  have i0: "lay_inv L0 {}" by (simp add: lay_inv_def)
  from s4 T3 l0 have s4': "layout_loop L0 {} (class_names D) = Inr T4" by simp
  have r4: "(\<exists>d'. lay_inv T4 d' \<and> {} \<union> set (class_names D) \<subseteq> d')
         \<and> types T4 = types L0 \<and> base T4 = base L0 \<and> interfaces T4 = interfaces L0
         \<and> method_slot T4 = method_slot L0 \<and> vtable_tokens T4 = vtable_tokens L0
         \<and> vtable_plans T4 = vtable_plans L0
         \<and> (\<forall>n. n \<notin> set (class_names D) \<longrightarrow> all_fields_cache T4 n = all_fields_cache L0 n
                               \<and> field_index T4 n = field_index L0 n)"
    using s4' i0 cd _ cl by (rule layout_loop_inv) simp
  then obtain dl where dl: "lay_inv T4 dl" "set (class_names D) \<subseteq> dl" by auto
  have ty4: "types T4 = D" using r4 tyL by simp
  have tyV: "types V0 = D" using r6 ty4 by simp
  have clV: "\<forall>n\<in>set (class_names D). \<forall>t. lookup_type (types V0) n = Some t \<longrightarrow> \<not> is_interface t"
    using class_names_lookup [OF dist] tyV by auto
  have iv0: "vt_inv V0 {}" by (simp add: vt_inv_def)
  from s7 T5 v0 have s7': "vtable_loop V0 {} (class_names D) = Inr T" by simp
  have r7: "(\<exists>d'. vt_inv T d' \<and> {} \<union> set (class_names D) \<subseteq> d')
         \<and> types T = types V0 \<and> base T = base V0 \<and> interfaces T = interfaces V0
         \<and> all_fields_cache T = all_fields_cache V0 \<and> field_index T = field_index V0
         \<and> (\<forall>n. n \<notin> set (class_names D) \<longrightarrow> method_slot T n = method_slot V0 n
                               \<and> vtable_tokens T n = vtable_tokens V0 n
                               \<and> vtable_plans T n = vtable_plans V0 n)"
    using s7' iv0 cd _ clV by (rule vtable_loop_inv) simp
  then obtain dv where dv: "vt_inv T dv" "set (class_names D) \<subseteq> dv" by auto
  have ty: "types T = D" using r7 tyV by simp
  have bT: "base T = base T1" using r7 r6 r4 r3 r2 by simp
  have bT4: "base T4 = base T" using r7 r6 by simp
  have iT: "interfaces T = interfaces T2" using r7 r6 r4 r3 by simp
  have aT: "all_fields_cache T = all_fields_cache T4" using r7 r6 by simp
  have fT: "field_index T = field_index T4" using r7 r6 by simp
  have "\<forall>t\<in>set D.
        if is_interface t
        then base T (name t) = None \<and> all_fields_cache T (name t) = []
             \<and> field_index T (name t) = Map.empty \<and> method_slot T (name t) = interface_slots t
        else base T (name t) = base_name t
             \<and> (\<forall>b. base T (name t) = Some b \<longrightarrow> (\<exists>bd\<in>set D. name bd = b \<and> \<not> is_interface bd))
             \<and> wf_chain (base T) (name t)
             \<and> interfaces T (name t) = interfaces_names t
             \<and> (\<forall>i\<in>set (interfaces_names t). \<exists>d\<in>set D. name d = i \<and> is_interface d)
             \<and> lay_ok T t
             \<and> (\<forall>b. base T (name t) = Some b \<longrightarrow>
                    set (fields_decl t) \<inter> set (all_fields_cache T b) = {})
             \<and> vt_ok T t"
  proof
    fix t assume t: "t \<in> set D"
    from dist t have lk: "lookup_type D (name t) = Some t" by (rule lookup_type_distinct)
    show "if is_interface t
        then base T (name t) = None \<and> all_fields_cache T (name t) = []
             \<and> field_index T (name t) = Map.empty \<and> method_slot T (name t) = interface_slots t
        else base T (name t) = base_name t
             \<and> (\<forall>b. base T (name t) = Some b \<longrightarrow> (\<exists>bd\<in>set D. name bd = b \<and> \<not> is_interface bd))
             \<and> wf_chain (base T) (name t)
             \<and> interfaces T (name t) = interfaces_names t
             \<and> (\<forall>i\<in>set (interfaces_names t). \<exists>d\<in>set D. name d = i \<and> is_interface d)
             \<and> lay_ok T t
             \<and> (\<forall>b. base T (name t) = Some b \<longrightarrow>
                    set (fields_decl t) \<inter> set (all_fields_cache T b) = {})
             \<and> vt_ok T t"
    proof (cases "is_interface t")
      case True
      have nc: "name t \<notin> set (class_names D)"
      proof
        assume "name t \<in> set (class_names D)"
        from class_names_lookup [OF dist this lk] True show False by simp
      qed
      have b: "base T (name t) = None"
        using r1 lk True bT by (simp add: new_table_def)
      have "all_fields_cache L0 (name t) = [] \<and> field_index L0 (name t) = Map.empty"
        using r3 t True by simp
      with r4 nc aT fT have a: "all_fields_cache T (name t) = []"
        "field_index T (name t) = Map.empty" by simp_all
      have "method_slot V0 (name t) = interface_slots t" using r6 lk True by simp
      with r7 nc have m: "method_slot T (name t) = interface_slots t" by simp
      from True b a m show ?thesis by simp
    next
      case False
      with t have inc: "name t \<in> set (class_names D)" by (auto simp: class_names_set)
      have b: "base T (name t) = base_name t"
        using r1 lk False bT by (auto simp: new_table_def)
      have bex: "\<forall>b. base T (name t) = Some b \<longrightarrow> (\<exists>bd\<in>set D. name bd = b \<and> \<not> is_interface bd)"
      proof (intro allI impI)
        fix bn assume "base T (name t) = Some bn"
        with b have "base_name t = Some bn" by simp
        with r1 t False obtain bd where "lookup_type (types (new_table D)) bn = Some bd"
          "\<not> is_interface bd" by blast
        then show "\<exists>bd\<in>set D. name bd = bn \<and> \<not> is_interface bd"
          by (auto simp: new_table_def dest: lookup_type_Some)
      qed
      from dl inc have "name t \<in> dl" by auto
      with dl(1) have "\<exists>u. lookup_type (types T4) (name t) = Some u \<and> \<not> is_interface u
        \<and> lay_ok T4 u \<and> (\<forall>b. base T4 (name t) = Some b \<longrightarrow> b \<in> dl) \<and> wf_chain (base T4) (name t)"
        unfolding lay_inv_def by (rule bspec)
      then obtain u where u: "lookup_type (types T4) (name t) = Some u"
        "lay_ok T4 u" "wf_chain (base T4) (name t)"
        by (elim exE conjE)
      from u(1) lk ty4 have ut: "u = t" by simp
      have wf: "wf_chain (base T) (name t)" using u(3) bT4 by simp
      have lay: "lay_ok T t" using lay_ok_cong [of T T4 t] u(2) ut aT fT bT4 by simp
      have ifs: "interfaces T (name t) = interfaces_names t"
        using r2 lk False iT by simp
      have iex: "\<forall>i\<in>set (interfaces_names t). \<exists>d\<in>set D. name d = i \<and> is_interface d"
      proof
        fix i assume "i \<in> set (interfaces_names t)"
        with r2 t False obtain d where "lookup_type (types T1) i = Some d" "is_interface d"
          by blast
        then show "\<exists>d\<in>set D. name d = i \<and> is_interface d"
          using ty1 by (auto dest: lookup_type_Some)
      qed
      have dj: "\<forall>b. base T (name t) = Some b \<longrightarrow>
                    set (fields_decl t) \<inter> set (all_fields_cache T b) = {}"
        using check_fields_res [OF s5] t False bT4 aT by simp
      from dv inc have "name t \<in> dv" by auto
      with dv(1) have "\<exists>w. lookup_type (types T) (name t) = Some w \<and> \<not> is_interface w
        \<and> vt_ok T w \<and> (\<forall>b. base T (name t) = Some b \<longrightarrow> b \<in> dv)"
        unfolding vt_inv_def by (rule bspec)
      then obtain w where w: "lookup_type (types T) (name t) = Some w" "vt_ok T w"
        by (elim exE conjE)
      from w(1) lk ty have "w = t" by simp
      with w have vt: "vt_ok T t" by simp
      from False b bex wf ifs iex lay dj vt show ?thesis by simp
    qed
  qed
  moreover have "\<forall>n. n \<notin> name ` set D \<longrightarrow> base T n = None"
    using r1 bT by (simp add: new_table_def lookup_type_None [symmetric])
  ultimately show ?thesis using ty dist by (simp add: linked_def)
qed

lemma linked_wf_all:
  assumes "linked D T" shows "wf_chain (base T) n"
proof (cases "n \<in> name ` set D")
  case False
  with assms have "base T n = None" by (simp add: linked_def)
  then show ?thesis by (rule wf_chain.root)
next
  case True
  then obtain t where t: "t \<in> set D" "name t = n" by auto
  show ?thesis
  proof (cases "is_interface t")
    case True
    with assms t have "base T n = None" by (auto simp: linked_def)
    then show ?thesis by (rule wf_chain.root)
  next
    case False
    with assms t show ?thesis by (auto simp: linked_def)
  qed
qed

lemma linked_class:
  assumes "linked D T" and "t \<in> set D" and "\<not> is_interface t"
  shows "base T (name t) = base_name t"
    and "\<And>b. base T (name t) = Some b \<Longrightarrow> \<exists>bd\<in>set D. name bd = b \<and> \<not> is_interface bd"
    and "interfaces T (name t) = interfaces_names t"
    and "lay_ok T t" and "vt_ok T t"
    and "\<And>b. base T (name t) = Some b \<Longrightarrow> set (fields_decl t) \<inter> set (all_fields_cache T b) = {}"
proof -
  from assms have *: "base T (name t) = base_name t
             \<and> (\<forall>b. base T (name t) = Some b \<longrightarrow> (\<exists>bd\<in>set D. name bd = b \<and> \<not> is_interface bd))
             \<and> wf_chain (base T) (name t)
             \<and> interfaces T (name t) = interfaces_names t
             \<and> (\<forall>i\<in>set (interfaces_names t). \<exists>d\<in>set D. name d = i \<and> is_interface d)
             \<and> lay_ok T t
             \<and> (\<forall>b. base T (name t) = Some b \<longrightarrow>
                    set (fields_decl t) \<inter> set (all_fields_cache T b) = {})
             \<and> vt_ok T t"
    unfolding linked_def by (elim conjE) (drule (1) bspec, simp)
  from * show "base T (name t) = base_name t" by simp
  from * show "\<And>b. base T (name t) = Some b \<Longrightarrow> \<exists>bd\<in>set D. name bd = b \<and> \<not> is_interface bd"
    by blast
  from * show "interfaces T (name t) = interfaces_names t" by simp
  from * show "lay_ok T t" by simp
  from * show "vt_ok T t" by simp
  from * show "\<And>b. base T (name t) = Some b \<Longrightarrow> set (fields_decl t) \<inter> set (all_fields_cache T b) = {}"
    by blast
qed

lemma linked_interface:
  assumes "linked D T" and "t \<in> set D" and "is_interface t"
  shows "base T (name t) = None" and "all_fields_cache T (name t) = []"
    and "field_index T (name t) = Map.empty" and "method_slot T (name t) = interface_slots t"
proof -
  from assms have *: "base T (name t) = None \<and> all_fields_cache T (name t) = []
             \<and> field_index T (name t) = Map.empty \<and> method_slot T (name t) = interface_slots t"
    unfolding linked_def by (elim conjE) (drule (1) bspec, simp)
  from * show "base T (name t) = None" "all_fields_cache T (name t) = []"
    "field_index T (name t) = Map.empty" "method_slot T (name t) = interface_slots t"
    by simp_all
qed

text \<open>The object \<open>t.base\<close> of a class of a linked table.\<close>

lemma linked_base_obj:
  assumes "linked D T" and "t \<in> set D" and "\<not> is_interface t"
  shows "base_obj T t = None \<and> base T (name t) = None
         \<or> (\<exists>bd. base_obj T t = Some bd \<and> base T (name t) = Some (name bd) \<and> bd \<in> set D
               \<and> \<not> is_interface bd)"
proof (cases "base T (name t)")
  case None
  then show ?thesis by (simp add: base_obj_def)
next
  case (Some b)
  from linked_class(2) [OF assms Some] obtain bd where bd: "bd \<in> set D" "name bd = b"
    "\<not> is_interface bd" by auto
  from assms(1) have "distinct (map name D)" "types T = D" by (simp_all add: linked_def)
  with bd have "lookup_type (types T) b = Some bd" by (auto dest: lookup_type_distinct)
  with Some bd show ?thesis by (simp add: base_obj_def)
qed

subsection \<open>Field indices\<close>

lemma index_map_snoc: "index_map (xs @ [x]) = (index_map xs)(x \<mapsto> length xs)"
  by (simp add: index_map_def enumerate_append_eq)

lemma index_map_append_notin: "f \<notin> set ys \<Longrightarrow> index_map (xs @ ys) f = index_map xs f"
proof (induction ys rule: rev_induct)
  case Nil
  then show ?case by simp
next
  case (snoc y ys)
  then show ?case by (simp add: index_map_snoc append_assoc [symmetric] del: append_assoc)
qed

lemma index_map_Some: "index_map xs f = Some i \<Longrightarrow> i < length xs \<and> xs ! i = f"
proof (induction xs arbitrary: i rule: rev_induct)
  case Nil
  then show ?case by simp
next
  case (snoc x xs)
  then show ?case
    by (auto simp: index_map_snoc nth_append split: if_splits dest: less_SucI)
qed

lemma index_map_dom: "dom (index_map xs) = set xs"
proof (induction xs rule: rev_induct)
  case Nil
  then show ?case by simp
next
  case (snoc x xs)
  have "dom (index_map (xs @ [x])) = insert x (dom (index_map xs))"
    by (simp add: index_map_snoc)
  with snoc show ?case by simp
qed

subsection \<open>Slots and tokens built by the loop over the methods\<close>

lemma slots_ok_bound: "slots_ok (ms, vt) \<Longrightarrow> map_of ms m = Some s \<Longrightarrow> s < length vt"
proof -
  assume ok: "slots_ok (ms, vt)" and m: "map_of ms m = Some s"
  from m have "(m, s) \<in> set ms" by (rule map_of_SomeD)
  then have "s \<in> set (map snd ms)" by force
  with ok show ?thesis by (simp add: slots_ok_def)
qed

lemma slots_ok_inj:
  "slots_ok (ms, vt) \<Longrightarrow> map_of ms m = Some s \<Longrightarrow> map_of ms m' = Some s \<Longrightarrow> m = m'"
proof -
  assume ok: "slots_ok (ms, vt)" and m: "map_of ms m = Some s" and m': "map_of ms m' = Some s"
  from ok have d: "distinct (map snd ms)" by (simp add: slots_ok_def)
  from m m' have "(m, s) \<in> set ms" "(m', s) \<in> set ms" by (auto dest: map_of_SomeD)
  with d have "(m, s) = (m', s)"
    by (intro inj_onD [of snd "set ms"]) (simp_all add: distinct_map)
  then show ?thesis by simp
qed

lemma slots_ok_add: "slots_ok st \<Longrightarrow> slots_ok (add_method mt st)"
  by (cases st; cases mt)
     (auto simp: slots_ok_def add_method_def map_of_eq_None_iff split: option.splits)

lemma slots_ok_add_methods: "slots_ok st \<Longrightarrow> slots_ok (fold add_method mts st)"
  by (induction mts arbitrary: st) (simp_all add: slots_ok_add)

lemma add_method_mono:
  "map_of (fst st) m = Some s \<Longrightarrow> map_of (fst (add_method mt st)) m = Some s"
  by (cases st; cases mt) (auto simp: add_method_def map_add_Some_iff split: option.splits)

lemma add_method_length: "length (snd st) \<le> length (snd (add_method mt st))"
  by (cases st; cases mt) (auto simp: add_method_def split: option.splits)

lemma add_methods_mono:
  "map_of (fst st) m = Some s \<Longrightarrow> map_of (fst (fold add_method mts st)) m = Some s"
  by (induction mts arbitrary: st) (simp_all add: add_method_mono)

lemma add_methods_length: "length (snd st) \<le> length (snd (fold add_method mts st))"
proof (induction mts arbitrary: st)
  case Nil
  then show ?case by simp
next
  case (Cons mt mts)
  have "length (snd st) \<le> length (snd (add_method mt st))" by (rule add_method_length)
  also have "\<dots> \<le> length (snd (fold add_method mts (add_method mt st)))" by (rule Cons.IH)
  finally show ?case by simp
qed

lemma add_method_dom:
  "dom (map_of (fst (add_method mt st))) = insert (fst mt) (dom (map_of (fst st)))"
  by (cases st; cases mt) (auto simp: add_method_def split: option.splits if_splits)

lemma add_methods_dom:
  "dom (map_of (fst (fold add_method mts st))) = fst ` set mts \<union> dom (map_of (fst st))"
  by (induction mts arbitrary: st) (auto simp: add_method_dom)

text \<open>A method that the class does not declare keeps the slot and the tokens of the base.\<close>

lemma add_method_new_slot:
  "slots_ok st \<Longrightarrow> map_of (fst st) (fst mt) = None
     \<Longrightarrow> map_of (fst (add_method mt st)) (fst mt) = Some (length (snd st))"
  by (cases st; cases mt) (simp add: add_method_def map_add_def)

lemma add_method_tokens:
  assumes ok: "slots_ok st" and s: "map_of (fst (add_method mt st)) m = Some s"
  shows "snd (add_method mt st) ! s = (if m = fst mt then snd mt else snd st ! s)"
proof -
  obtain ms vt where st: "st = (ms, vt)" by (cases st)
  obtain m0 t0 where mt: "mt = (m0, t0)" by (cases mt)
  show ?thesis
  proof (cases "map_of ms m0")
    case None
    show ?thesis
    proof (cases "m = m0")
      case True
      with None s st mt show ?thesis by (auto simp: add_method_def map_add_def)
    next
      case False
      with None s st mt have "map_of ms m = Some s"
        by (simp add: add_method_def map_add_def split: option.splits)
      with ok st have "s < length vt" by (auto dest: slots_ok_bound)
      with None False st mt show ?thesis by (simp add: add_method_def nth_append)
    qed
  next
    case (Some s0)
    with ok st have b0: "s0 < length vt" by (auto dest: slots_ok_bound)
    from Some s st mt have ms: "map_of ms m = Some s" by (simp add: add_method_def)
    show ?thesis
    proof (cases "m = m0")
      case True
      with Some ms b0 st mt show ?thesis by (simp add: add_method_def)
    next
      case False
      with ok st Some ms have "s \<noteq> s0" by (auto dest: slots_ok_inj)
      with Some False st mt show ?thesis by (simp add: add_method_def)
    qed
  qed
qed

lemma add_methods_tokens:
  "slots_ok st \<Longrightarrow> distinct (map fst mts)
     \<Longrightarrow> map_of (fst (fold add_method mts st)) m = Some s
     \<Longrightarrow> snd (fold add_method mts st) ! s =
           (case map_of mts m of Some toks \<Rightarrow> toks | None \<Rightarrow> snd st ! s)"
proof (induction mts arbitrary: st)
  case Nil
  then show ?case by simp
next
  case (Cons mt mts)
  let ?st1 = "add_method mt st"
  have ok1: "slots_ok ?st1" using Cons.prems(1) by (rule slots_ok_add)
  from Cons.prems(2) have d: "distinct (map fst mts)" and fresh: "fst mt \<notin> fst ` set mts" by auto
  from Cons.prems(3) have s: "map_of (fst (fold add_method mts ?st1)) m = Some s" by simp
  note IH = Cons.IH [OF ok1 d s]
  show ?case
  proof (cases "map_of mts m")
    case (Some toks)
    then have "m \<in> fst ` set mts" by (force dest: map_of_SomeD)
    with fresh have "m \<noteq> fst mt" by blast
    with IH Some show ?thesis by (cases mt) simp
  next
    case None
    then have nin: "m \<notin> fst ` set mts" by (simp add: map_of_eq_None_iff)
    have "m \<in> dom (map_of (fst (fold add_method mts ?st1)))" using s by auto
    with nin have "m \<in> dom (map_of (fst ?st1))" by (simp add: add_methods_dom)
    then obtain s1 where s1: "map_of (fst ?st1) m = Some s1" by auto
    from add_methods_mono [OF this, of mts] s have "s1 = s" by simp
    with s1 have "snd ?st1 ! s = (if m = fst mt then snd mt else snd st ! s)"
      using add_method_tokens [OF Cons.prems(1)] by simp
    with IH None show ?thesis by (cases mt) auto
  qed
qed

subsection \<open>Ancestors\<close>

lemma ancestor_cases_start:
  "ancestor T c a \<longleftrightarrow> a = c \<or> (\<exists>b. base_obj T c = Some b \<and> ancestor T b a)"
  by (auto intro: ancestor.intros elim: ancestor.cases)

lemma base_obj_name: "base_obj T c = Some b \<Longrightarrow> base T (name c) = Some (name b)"
  by (auto simp: base_obj_def split: option.splits dest: lookup_type_Some)

lemma linked_class_induct [consumes 3, case_names root derived]:
  assumes lk: "linked D T" and c: "c \<in> set D" and cls: "\<not> is_interface c"
    and root: "\<And>c. c \<in> set D \<Longrightarrow> \<not> is_interface c \<Longrightarrow> base T (name c) = None
                 \<Longrightarrow> base_obj T c = None \<Longrightarrow> P c"
    and derived: "\<And>c b. c \<in> set D \<Longrightarrow> \<not> is_interface c \<Longrightarrow> b \<in> set D \<Longrightarrow> \<not> is_interface b
                 \<Longrightarrow> base T (name c) = Some (name b) \<Longrightarrow> base_obj T c = Some b \<Longrightarrow> P b \<Longrightarrow> P c"
  shows "P c"
proof -
  have wf: "wf_chain (base T) (name c)" using lk by (rule linked_wf_all)
  define n where "n = name c"
  from wf have "wf_chain (base T) n" by (simp add: n_def)
  then have "\<forall>c. c \<in> set D \<and> \<not> is_interface c \<and> name c = n \<longrightarrow> P c"
  proof (induction n rule: wf_chain.induct)
    case (root n)
    show ?case
    proof (intro allI impI)
      fix c assume c: "c \<in> set D \<and> \<not> is_interface c \<and> name c = n"
      with root have "base T (name c) = None" by simp
      moreover then have "base_obj T c = None" by (simp add: base_obj_def)
      ultimately show "P c" using c assms(4) by blast
    qed
  next
    case (step n b)
    show ?case
    proof (intro allI impI)
      fix c assume c: "c \<in> set D \<and> \<not> is_interface c \<and> name c = n"
      then have cD: "c \<in> set D" and cc: "\<not> is_interface c" and cn: "name c = n" by simp_all
      from linked_base_obj [OF lk cD cc] step(1) cn
      obtain bd where bd: "base_obj T c = Some bd" "base T (name c) = Some (name bd)"
        "bd \<in> set D" "\<not> is_interface bd" by auto
      with step(1) cn have "name bd = b" by simp
      with step.IH bd have "P bd" by blast
      with cD cc bd show "P c" by (intro derived [of c bd])
    qed
  qed
  with c cls show ?thesis by (simp add: n_def)
qed

lemma ancestor_in_table:
  assumes lk: "linked D T" and anc: "ancestor T c a"
  shows "c \<in> set D \<Longrightarrow> \<not> is_interface c \<Longrightarrow> a \<in> set D \<and> \<not> is_interface a"
  using anc
proof (induction rule: ancestor.induct)
  case (self c)
  then show ?case by simp
next
  case (up c b a)
  from linked_base_obj [OF lk up.prems] up.hyps(1) have "b \<in> set D \<and> \<not> is_interface b" by auto
  with up.IH show ?case by simp
qed

subsection \<open>The walks return\<close>

lemma is_subclass_loop_None [simp]: "is_subclass_loop T None other = Some False"
  by (subst is_subclass_loop.simps) simp

lemma is_subclass_loop_Some:
  "is_subclass_loop T (Some cd) other =
     (if name cd = name other then Some True else is_subclass_loop T (base_obj T cd) other)"
  by (subst is_subclass_loop.simps) simp

lemma all_interfaces_loop_None [simp]: "all_interfaces_loop T None out = Some out"
  by (subst all_interfaces_loop.simps) simp

lemma all_interfaces_loop_Some:
  "all_interfaces_loop T (Some cd) out =
     all_interfaces_loop T (base_obj T cd) (out \<union> set (interfaces T (name cd)))"
  by (subst all_interfaces_loop.simps) simp

lemma lookup_method_loop_None [simp]: "lookup_method_loop T None n = Some None"
  by (subst lookup_method_loop.simps) simp

lemma lookup_method_loop_Some:
  "lookup_method_loop T (Some cd) n =
     (case map_of (methods cd) n of
        Some toks \<Rightarrow> Some (Some toks)
      | None \<Rightarrow> lookup_method_loop T (base_obj T cd) n)"
  by (subst lookup_method_loop.simps) simp

lemma lookup_with_steps_loop_None [simp]:
  "lookup_with_steps_loop T None m k mt = Some ((None, k), mt)"
  by (subst lookup_with_steps_loop.simps) simp

lemma lookup_with_steps_loop_Some:
  "lookup_with_steps_loop T (Some cd) m k mt =
     (case probe_methods m (methods cd) (mt\<lparr> class_jumps := class_jumps mt + 1 \<rparr>) of
        (Some toks, mt') \<Rightarrow> Some ((Some toks, k), mt')
      | (None, mt') \<Rightarrow> lookup_with_steps_loop T (base_obj T cd) m (k + 1) mt')"
  by (subst lookup_with_steps_loop.simps) simp

text \<open>On a table whose base chains all end, the subclass walk returns, and it returns true
  exactly when it meets a type of the name of \<open>other\<close> on the chain.\<close>

lemma is_subclass_loop_wf:
  assumes "wf_chain (base T) n"
  shows "name c = n \<Longrightarrow>
     is_subclass_loop T (Some c) other = Some (\<exists>a. ancestor T c a \<and> name a = name other)"
  using assms
proof (induction n arbitrary: c rule: wf_chain.induct)
  case (root n)
  then have bo: "base_obj T c = None" by (simp add: base_obj_def)
  then have "\<And>a. ancestor T c a \<longleftrightarrow> a = c"
    by (subst ancestor_cases_start) simp
  with bo show ?case by (simp add: is_subclass_loop_Some)
next
  case (step n b)
  show ?case
  proof (cases "base_obj T c")
    case None
    then have "\<And>a. ancestor T c a \<longleftrightarrow> a = c"
      by (subst ancestor_cases_start) simp
    with None show ?thesis by (simp add: is_subclass_loop_Some)
  next
    case (Some bd)
    from base_obj_name [OF Some] step have "name bd = b" by simp
    from step.IH [OF this]
    have IH: "is_subclass_loop T (Some bd) other = Some (\<exists>a. ancestor T bd a \<and> name a = name other)" .
    have "(\<exists>a. ancestor T c a \<and> name a = name other)
          \<longleftrightarrow> name c = name other \<or> (\<exists>a. ancestor T bd a \<and> name a = name other)"
      by (subst ancestor_cases_start) (auto simp: Some)
    with IH Some show ?thesis by (simp add: is_subclass_loop_Some)
  qed
qed

lemma all_interfaces_loop_wf:
  assumes "wf_chain (base T) n"
  shows "name c = n \<Longrightarrow>
     all_interfaces_loop T (Some c) out =
       Some (out \<union> (\<Union>a\<in>{a. ancestor T c a}. set (interfaces T (name a))))"
  using assms
proof (induction n arbitrary: c out rule: wf_chain.induct)
  case (root n)
  then have bo: "base_obj T c = None" by (simp add: base_obj_def)
  then have "{a. ancestor T c a} = {c}"
    by (subst ancestor_cases_start) simp
  with bo show ?case by (simp add: all_interfaces_loop_Some)
next
  case (step n b)
  show ?case
  proof (cases "base_obj T c")
    case None
    then have "{a. ancestor T c a} = {c}"
      by (subst ancestor_cases_start) simp
    with None show ?thesis by (simp add: all_interfaces_loop_Some)
  next
    case (Some bd)
    from base_obj_name [OF Some] step have "name bd = b" by simp
    note IH = step.IH [OF this, of "out \<union> set (interfaces T (name c))"]
    have "{a. ancestor T c a} = insert c {a. ancestor T bd a}"
      by (subst ancestor_cases_start) (auto simp: Some)
    with IH Some show ?thesis by (simp add: all_interfaces_loop_Some Un_assoc)
  qed
qed

lemma probe_methods_fst: "fst (probe_methods m ms mt) = map_of ms m"
  by (induction ms arbitrary: mt) (auto simp: Let_def)

lemma lookup_walks_wf:
  assumes "wf_chain (base T) n"
  shows "name c = n \<Longrightarrow>
     \<exists>r k' mt'. lookup_method_loop T (Some c) m = Some r
        \<and> lookup_with_steps_loop T (Some c) m k mt = Some ((r, k'), mt')"
  using assms
proof (induction n arbitrary: c k mt rule: wf_chain.induct)
  case (root n)
  then have bo: "base_obj T c = None" by (simp add: base_obj_def)
  obtain r mt1 where p: "probe_methods m (methods c) (mt\<lparr> class_jumps := class_jumps mt + 1 \<rparr>) = (r, mt1)"
    by (cases "probe_methods m (methods c) (mt\<lparr> class_jumps := class_jumps mt + 1 \<rparr>)")
  with probe_methods_fst [of m "methods c" "mt\<lparr> class_jumps := class_jumps mt + 1 \<rparr>"]
  have r: "map_of (methods c) m = r" by simp
  from bo p r show ?case
    by (cases r) (simp_all add: lookup_method_loop_Some lookup_with_steps_loop_Some)
next
  case (step n b)
  obtain r mt1 where p: "probe_methods m (methods c) (mt\<lparr> class_jumps := class_jumps mt + 1 \<rparr>) = (r, mt1)"
    by (cases "probe_methods m (methods c) (mt\<lparr> class_jumps := class_jumps mt + 1 \<rparr>)")
  with probe_methods_fst [of m "methods c" "mt\<lparr> class_jumps := class_jumps mt + 1 \<rparr>"]
  have r: "map_of (methods c) m = r" by simp
  show ?case
  proof (cases r)
    case (Some toks)
    with p r show ?thesis
      by (simp add: lookup_method_loop_Some lookup_with_steps_loop_Some)
  next
    case None
    show ?thesis
    proof (cases "base_obj T c")
      case bn: None
      with None p r show ?thesis
        by (simp add: lookup_method_loop_Some lookup_with_steps_loop_Some)
    next
      case (Some bd)
      from base_obj_name [OF Some] step have "name bd = b" by simp
      from step.IH [OF this, of "k + 1" mt1] None p r Some show ?thesis
        by (simp add: lookup_method_loop_Some lookup_with_steps_loop_Some)
    qed
  qed
qed

section \<open>Evaluation of the example\<close>

lemmas link_eval = resolve_and_link_def new_table_def lookup_type_def
     has_cycle_def has_cycle_loop.simps class_names_def compute_layout_def build_vtable_def add_method_def interface_slots_def Let_def

lemmas ex_defs = ex_types_def ex_A_def ex_B_def ex_I_def

lemma ex_link: "resolve_and_link ex_types = Some (Inr ex_table)"
  by (simp add: ex_table_def link_eval ex_defs)

lemma ex_table_types: "types ex_table = ex_types"
  by (simp add: ex_table_def link_eval ex_defs)

lemma ex_table_all_fields:
  "all_fields_cache ex_table ''A'' = [''a'']" "all_fields_cache ex_table ''B'' = [''a'', ''b'']"
  "all_fields_cache ex_table ''I'' = []"
  by (simp_all add: ex_table_def link_eval ex_defs)

section \<open>Instantiation\<close>

text \<open>C8: when \<open>new\<close> names a class and supplies a number of arguments different from the
  length of the full field layout of that class, \<open>_instantiate\<close> fails with the arity error
  and leaves the interpreter, in particular the heap, as it was; the statement fails with
  the same error.\<close>

theorem instantiate_arity_error:
  assumes "lookup_type (types T) class_name = Some c" and "\<not> is_interface c"
    and "length args \<noteq> length (all_fields T c)"
  shows "instantiate T s class_name args =
           (Inl (ArityMismatch class_name (length (all_fields T c)) (length args)), s)
         \<and> heap (snd (instantiate T s class_name args)) = heap s
         \<and> exec_let_new T s var_name class_name args =
             Inl (ArityMismatch class_name (length (all_fields T c)) (length args))"
  using assms by (simp add: instantiate_def exec_let_new_def)

theorem instantiate_arity_error_witness:
  "instantiate ex_table (new_interp ex_table ex_mem) ''B'' [7] =
     (Inl (ArityMismatch ''B'' 2 1), new_interp ex_table ex_mem)
   \<and> heap (snd (instantiate ex_table (new_interp ex_table ex_mem) ''B'' [7])) = []
   \<and> exec_let_new ex_table (new_interp ex_table ex_mem) ''x'' ''B'' [7] = Inl (ArityMismatch ''B'' 2 1)"
  using instantiate_arity_error [of ex_table "''B''" ex_B "[7]" "new_interp ex_table ex_mem" "''x''"]
  by (simp add: ex_table_types ex_table_all_fields all_fields_def lookup_type_def ex_defs new_interp_def)

lemma is_subclass_of_ancestor:
  assumes lk: "linked D T" and d: "d \<in> set D" and c: "c \<in> set D"
    and sub: "is_subclass_of T d c = Some True"
  shows "\<not> is_interface d \<and> \<not> is_interface c \<and> ancestor T d c"
proof -
  from sub have cls: "\<not> is_interface d" "\<not> is_interface c"
    by (auto simp: is_subclass_of_def split: if_splits)
  with sub have "is_subclass_loop T (Some d) c = Some True" by (simp add: is_subclass_of_def)
  with is_subclass_loop_wf [OF linked_wf_all [OF lk], of d "name d" c]
  obtain a where a: "ancestor T d a" "name a = name c" by auto
  from ancestor_in_table [OF lk a(1) d cls(1)] have "a \<in> set D" by simp
  with a c lk have "a = c" by (auto simp: linked_def intro: distinct_name_eq)
  with a cls show ?thesis by simp
qed

lemma ancestor_is_subclass_of:
  assumes lk: "linked D T" and cls: "\<not> is_interface d" "\<not> is_interface c"
    and anc: "ancestor T d c"
  shows "is_subclass_of T d c = Some True"
  using is_subclass_loop_wf [OF linked_wf_all [OF lk], of d "name d" c] cls anc
  by (auto simp: is_subclass_of_def)

lemma linked_layout:
  assumes lk: "linked D T" and c: "c \<in> set D" and cls: "\<not> is_interface c"
  shows "all_fields T c = (case base_obj T c of None \<Rightarrow> [] | Some b \<Rightarrow> all_fields T b) @ fields_decl c"
  using linked_base_obj [OF assms] linked_class(4) [OF assms]
  by (auto simp: lay_ok_def all_fields_def)

lemma ancestor_fields_prefix:
  assumes lk: "linked D T" and anc: "ancestor T d c"
  shows "d \<in> set D \<Longrightarrow> \<not> is_interface d \<Longrightarrow>
     \<exists>ys. all_fields T d = all_fields T c @ ys \<and> set ys \<inter> set (all_fields T c) = {}"
  using anc
proof (induction rule: ancestor.induct)
  case (self c)
  then show ?case by simp
next
  case (up d b c)
  from linked_base_obj [OF lk up.prems] up.hyps(1)
  have b: "b \<in> set D" "\<not> is_interface b" "base T (name d) = Some (name b)" by auto
  from up.IH [OF b(1,2)] obtain ys where ys: "all_fields T b = all_fields T c @ ys"
    "set ys \<inter> set (all_fields T c) = {}" by auto
  from linked_layout [OF lk up.prems] up.hyps(1)
  have d: "all_fields T d = all_fields T b @ fields_decl d" by simp
  from linked_class(6) [OF lk up.prems b(3)]
  have "set (fields_decl d) \<inter> set (all_fields T b) = {}" by (simp add: all_fields_def)
  with ys have "set (ys @ fields_decl d) \<inter> set (all_fields T c) = {}" by auto
  moreover from d ys have "all_fields T d = all_fields T c @ (ys @ fields_decl d)" by simp
  ultimately show ?case by blast
qed

section \<open>Field layout\<close>

text \<open>C2: after a successful link, the full field layout of every class is the layout of
  its base (empty without a base) followed by its own declared fields, \<open>field_index\<close> is the
  index map of that layout, and in every subclass the layout of the class is a prefix of
  the layout of the subclass, so that every field of the class has the same index there.\<close>

theorem layout_append_index_stable:
  assumes link: "resolve_and_link D = Some (Inr T)" and dist: "distinct (map name D)"
    and c: "c \<in> set D" and cls: "\<not> is_interface c"
  shows "all_fields T c =
           (case base_obj T c of None \<Rightarrow> [] | Some b \<Rightarrow> all_fields T b) @ fields_decl c
     \<and> field_index T (name c) = index_map (all_fields T c)
     \<and> (\<forall>d\<in>set D. is_subclass_of T d c = Some True \<longrightarrow>
           (\<exists>ys. all_fields T d = all_fields T c @ ys)
           \<and> (\<forall>f\<in>set (all_fields T c).
                 field_index T (name d) f = field_index T (name c) f
                 \<and> (\<exists>i. field_index T (name c) f = Some i \<and> all_fields T c ! i = f
                          \<and> all_fields T d ! i = f)))"
proof -
  from link dist have lk: "linked D T" by (rule link_linked)
  have fi: "\<And>t. t \<in> set D \<Longrightarrow> \<not> is_interface t \<Longrightarrow> field_index T (name t) = index_map (all_fields T t)"
    using linked_class(4) [OF lk] by (simp add: lay_ok_def all_fields_def)
  have sub: "\<forall>d\<in>set D. is_subclass_of T d c = Some True \<longrightarrow>
           (\<exists>ys. all_fields T d = all_fields T c @ ys)
           \<and> (\<forall>f\<in>set (all_fields T c).
                 field_index T (name d) f = field_index T (name c) f
                 \<and> (\<exists>i. field_index T (name c) f = Some i \<and> all_fields T c ! i = f
                          \<and> all_fields T d ! i = f))"
  proof (intro ballI impI)
    fix d assume d: "d \<in> set D" and s: "is_subclass_of T d c = Some True"
    from is_subclass_of_ancestor [OF lk d c s] have dc: "\<not> is_interface d" and anc: "ancestor T d c"
      by simp_all
    from ancestor_fields_prefix [OF lk anc d dc] obtain ys
      where ys: "all_fields T d = all_fields T c @ ys" "set ys \<inter> set (all_fields T c) = {}" by auto
    have "\<forall>f\<in>set (all_fields T c).
                 field_index T (name d) f = field_index T (name c) f
                 \<and> (\<exists>i. field_index T (name c) f = Some i \<and> all_fields T c ! i = f
                          \<and> all_fields T d ! i = f)"
    proof
      fix f assume f: "f \<in> set (all_fields T c)"
      with ys have "f \<notin> set ys" by auto
      then have e: "field_index T (name d) f = field_index T (name c) f"
        using fi [OF d dc] fi [OF c cls] ys by (simp add: index_map_append_notin)
      from f have "f \<in> dom (index_map (all_fields T c))" by (simp add: index_map_dom)
      then obtain i where i: "index_map (all_fields T c) f = Some i" by auto
      from index_map_Some [OF i] ys have "all_fields T c ! i = f" "all_fields T d ! i = f"
        by (simp_all add: nth_append)
      with i e fi [OF c cls] show "field_index T (name d) f = field_index T (name c) f
                 \<and> (\<exists>i. field_index T (name c) f = Some i \<and> all_fields T c ! i = f
                          \<and> all_fields T d ! i = f)" by simp
    qed
    with ys show "(\<exists>ys. all_fields T d = all_fields T c @ ys)
           \<and> (\<forall>f\<in>set (all_fields T c).
                 field_index T (name d) f = field_index T (name c) f
                 \<and> (\<exists>i. field_index T (name c) f = Some i \<and> all_fields T c ! i = f
                          \<and> all_fields T d ! i = f))" by blast
  qed
  from linked_layout [OF lk c cls] fi [OF c cls] sub show ?thesis by blast
qed

section \<open>Slots\<close>

lemma vt_okD:
  assumes "vt_ok T t"
  shows "method_slot T (name t) = fst (fold add_method (methods t) (vt_start T t))"
    and "vtable_tokens T (name t) = snd (fold add_method (methods t) (vt_start T t))"
    and "vtable_plans T (name t) = replicate (length (vtable_tokens T (name t))) None"
proof -
  from assms have e: "(method_slot T (name t), vtable_tokens T (name t)) =
      fold add_method (methods t) (vt_start T t)"
    and p: "vtable_plans T (name t) = replicate (length (vtable_tokens T (name t))) None"
    by (simp_all add: vt_ok_def vt_start_def)
  from e [symmetric] show "method_slot T (name t) = fst (fold add_method (methods t) (vt_start T t))"
    "vtable_tokens T (name t) = snd (fold add_method (methods t) (vt_start T t))" by simp_all
  from p show "vtable_plans T (name t) = replicate (length (vtable_tokens T (name t))) None" .
qed

lemma linked_slots_ok:
  assumes lk: "linked D T" and c: "c \<in> set D" and cls: "\<not> is_interface c"
  shows "slots_ok (method_slot T (name c), vtable_tokens T (name c))"
  using assms
proof (induction rule: linked_class_induct)
  case (root c)
  then have "vt_start T c = ([], [])" by (simp add: vt_start_def)
  moreover have "slots_ok ([], [])" by (simp add: slots_ok_def)
  ultimately have "slots_ok (fold add_method (methods c) (vt_start T c))"
    by (simp add: slots_ok_add_methods)
  with vt_okD(1,2) [OF linked_class(5) [OF lk root(1,2)]] show ?case by simp
next
  case (derived c b)
  then have "vt_start T c = (method_slot T (name b), vtable_tokens T (name b))"
    by (simp add: vt_start_def)
  with derived have "slots_ok (fold add_method (methods c) (vt_start T c))"
    by (simp add: slots_ok_add_methods)
  with vt_okD(1,2) [OF linked_class(5) [OF lk derived(1,2)]] show ?case by simp
qed

lemma vt_start_slots_ok:
  assumes lk: "linked D T" and c: "c \<in> set D" and cls: "\<not> is_interface c"
  shows "slots_ok (vt_start T c)"
proof (cases "base T (name c)")
  case None
  then show ?thesis by (simp add: vt_start_def slots_ok_def)
next
  case (Some bn)
  from linked_class(2) [OF assms Some] obtain bd where "bd \<in> set D" "name bd = bn"
    "\<not> is_interface bd" by auto
  with linked_slots_ok [OF lk, of bd] Some show ?thesis by (auto simp: vt_start_def)
qed

lemma ancestor_slots:
  assumes lk: "linked D T" and anc: "ancestor T d c"
  shows "d \<in> set D \<Longrightarrow> \<not> is_interface d \<Longrightarrow>
     (map_of (method_slot T (name c)) m = Some s \<longrightarrow> map_of (method_slot T (name d)) m = Some s)
     \<and> length (vtable_tokens T (name c)) \<le> length (vtable_tokens T (name d))"
  using anc
proof (induction rule: ancestor.induct)
  case (self c)
  then show ?case by simp
next
  case (up d b c)
  from linked_base_obj [OF lk up.prems] up.hyps(1)
  have b: "b \<in> set D" "\<not> is_interface b" "base T (name d) = Some (name b)" by auto
  then have st: "vt_start T d = (method_slot T (name b), vtable_tokens T (name b))"
    by (simp add: vt_start_def)
  note vt = vt_okD(1,2) [OF linked_class(5) [OF lk up.prems]]
  from up.IH [OF b(1,2)]
  have IH: "map_of (method_slot T (name c)) m = Some s \<longrightarrow> map_of (method_slot T (name b)) m = Some s"
    "length (vtable_tokens T (name c)) \<le> length (vtable_tokens T (name b))" by simp_all
  have "map_of (method_slot T (name b)) m = Some s \<longrightarrow> map_of (method_slot T (name d)) m = Some s"
    using add_methods_mono [of "vt_start T d" m s "methods d"] vt st by simp
  moreover have "length (vtable_tokens T (name b)) \<le> length (vtable_tokens T (name d))"
    using add_methods_length [of "vt_start T d" "methods d"] vt st by simp
  ultimately show ?case using IH by auto
qed

text \<open>The linear walk and the slot tables of a class agree: the walk finds the method
  exactly when the method has a slot, and the tokens it finds are those at that slot.\<close>

lemma lookup_slots:
  assumes lk: "linked D T" and c: "c \<in> set D" and cls: "\<not> is_interface c"
  shows "\<exists>r. lookup_method_loop T (Some c) m = Some r
           \<and> (r = None \<longleftrightarrow> map_of (method_slot T (name c)) m = None)
           \<and> ((\<forall>t\<in>set D. distinct (map fst (methods t))) \<longrightarrow>
                (\<forall>toks s. r = Some toks \<longrightarrow> map_of (method_slot T (name c)) m = Some s
                   \<longrightarrow> vtable_tokens T (name c) ! s = toks))"
  using assms
proof (induction rule: linked_class_induct)
  case (root c)
  note vt = vt_okD(1,2) [OF linked_class(5) [OF lk root(1,2)]]
  from root have st: "vt_start T c = ([], [])" by (simp add: vt_start_def)
  have ok: "slots_ok (vt_start T c)" using st by (simp add: slots_ok_def)
  have lm: "lookup_method_loop T (Some c) m = Some (map_of (methods c) m)"
    using root(4) by (simp add: lookup_method_loop_Some split: option.splits)
  have dm: "dom (map_of (method_slot T (name c))) = fst ` set (methods c)"
    using vt st by (simp add: add_methods_dom)
  have none: "map_of (methods c) m = None \<longleftrightarrow> map_of (method_slot T (name c)) m = None"
    using dm by (metis domIff dom_map_of_conv_image_fst)
  have tk: "(\<forall>t\<in>set D. distinct (map fst (methods t))) \<longrightarrow>
                (\<forall>toks s. map_of (methods c) m = Some toks \<longrightarrow> map_of (method_slot T (name c)) m = Some s
                   \<longrightarrow> vtable_tokens T (name c) ! s = toks)"
  proof (intro impI allI)
    fix toks s
    assume d: "\<forall>t\<in>set D. distinct (map fst (methods t))"
      and r: "map_of (methods c) m = Some toks" and s: "map_of (method_slot T (name c)) m = Some s"
    from d root(1) have dc: "distinct (map fst (methods c))" by simp
    from add_methods_tokens [OF ok dc, of m s] s vt r
    show "vtable_tokens T (name c) ! s = toks" by simp
  qed
  show ?case by (intro exI [of _ "map_of (methods c) m"] conjI lm none tk)
next
  case (derived c b)
  note vt = vt_okD(1,2) [OF linked_class(5) [OF lk derived(1,2)]]
  from derived have st: "vt_start T c = (method_slot T (name b), vtable_tokens T (name b))"
    by (simp add: vt_start_def)
  have ok: "slots_ok (vt_start T c)" using lk derived(1,2) by (rule vt_start_slots_ok)
  from derived.IH obtain rb where rb: "lookup_method_loop T (Some b) m = Some rb"
    "rb = None \<longleftrightarrow> map_of (method_slot T (name b)) m = None"
    "(\<forall>t\<in>set D. distinct (map fst (methods t))) \<longrightarrow>
                (\<forall>toks s. rb = Some toks \<longrightarrow> map_of (method_slot T (name b)) m = Some s
                   \<longrightarrow> vtable_tokens T (name b) ! s = toks)" by (elim exE conjE)
  define r where "r = (case map_of (methods c) m of Some toks \<Rightarrow> Some toks | None \<Rightarrow> rb)"
  have lm: "lookup_method_loop T (Some c) m = Some r"
    using derived(6) rb(1) by (simp add: lookup_method_loop_Some r_def split: option.splits)
  have dm: "dom (map_of (method_slot T (name c)))
              = fst ` set (methods c) \<union> dom (map_of (method_slot T (name b)))"
    using vt st by (simp add: add_methods_dom)
  have mc: "map_of (methods c) m = None \<longleftrightarrow> m \<notin> fst ` set (methods c)"
    by (simp add: map_of_eq_None_iff)
  have none: "r = None \<longleftrightarrow> map_of (method_slot T (name c)) m = None"
  proof -
    have "r = None \<longleftrightarrow> map_of (methods c) m = None \<and> rb = None"
      by (simp add: r_def split: option.splits)
    also have "\<dots> \<longleftrightarrow> m \<notin> fst ` set (methods c) \<and> m \<notin> dom (map_of (method_slot T (name b)))"
      using mc rb(2) by (simp add: domIff)
    also have "\<dots> \<longleftrightarrow> m \<notin> dom (map_of (method_slot T (name c)))" using dm by simp
    finally show ?thesis by (simp add: domIff)
  qed
  have tk: "(\<forall>t\<in>set D. distinct (map fst (methods t))) \<longrightarrow>
                (\<forall>toks s. r = Some toks \<longrightarrow> map_of (method_slot T (name c)) m = Some s
                   \<longrightarrow> vtable_tokens T (name c) ! s = toks)"
  proof (intro impI allI)
    fix toks s
    assume d: "\<forall>t\<in>set D. distinct (map fst (methods t))"
      and r: "r = Some toks" and s: "map_of (method_slot T (name c)) m = Some s"
    from d derived(1) have dc: "distinct (map fst (methods c))" by simp
    from add_methods_tokens [OF ok dc, of m s] s vt st
    have tok: "vtable_tokens T (name c) ! s =
           (case map_of (methods c) m of Some toks \<Rightarrow> toks | None \<Rightarrow> vtable_tokens T (name b) ! s)"
      by (simp split: option.splits)
    show "vtable_tokens T (name c) ! s = toks"
    proof (cases "map_of (methods c) m")
      case (Some t')
      with r tok show ?thesis by (simp add: r_def)
    next
      case None
      with r have rbt: "rb = Some toks" by (simp add: r_def)
      with rb(2) obtain sb where sb: "map_of (method_slot T (name b)) m = Some sb" by auto
      from add_methods_mono [of "vt_start T c" m sb "methods c"] sb vt st s have "sb = s" by simp
      with rb(3) d rbt sb have "vtable_tokens T (name b) ! s = toks" by simp
      with tok None show ?thesis by simp
    qed
  qed
  show ?case by (intro exI [of _ r] conjI lm none tk)
qed

lemma slots_ok_pair: "slots_ok st \<Longrightarrow> slots_ok (fst st, snd st)"
  by simp

lemma add_methods_fresh:
  assumes ok: "slots_ok st" and m: "m \<in> fst ` set mts" and none: "map_of (fst st) m = None"
  shows "\<exists>s. map_of (fst (fold add_method mts st)) m = Some s \<and> length (snd st) \<le> s
            \<and> s < length (snd (fold add_method mts st))"
proof -
  let ?st' = "fold add_method mts st"
  have ok': "slots_ok (fst ?st', snd ?st')" using ok by (simp add: slots_ok_add_methods)
  from m have "m \<in> dom (map_of (fst ?st'))" by (simp add: add_methods_dom)
  then obtain s where s: "map_of (fst ?st') m = Some s" by auto
  from slots_ok_bound [OF ok' s] have ub: "s < length (snd ?st')" .
  have lb: "length (snd st) \<le> s"
  proof (rule ccontr)
    assume "\<not> length (snd st) \<le> s"
    then have "s \<in> set [0..<length (snd st)]" by simp
    with ok have "s \<in> set (map snd (fst st))" by (simp add: slots_ok_def)
    then obtain m' where m': "(m', s) \<in> set (fst st)" by auto
    from ok have "distinct (map fst (fst st))" by (simp add: slots_ok_def)
    with m' have "map_of (fst st) m' = Some s" by simp
    then have s': "map_of (fst ?st') m' = Some s" by (rule add_methods_mono)
    from slots_ok_inj [OF ok' s s'] have "m = m'" .
    with \<open>map_of (fst st) m' = Some s\<close> none show False by simp
  qed
  from s lb ub show ?thesis by blast
qed

lemma vt_start_base_obj:
  assumes lk: "linked D T" and c: "c \<in> set D" and cls: "\<not> is_interface c"
  shows "vt_start T c =
     (case base_obj T c of None \<Rightarrow> ([], [])
      | Some bd \<Rightarrow> (method_slot T (name bd), vtable_tokens T (name bd)))"
  using linked_base_obj [OF assms] by (auto simp: vt_start_def)

text \<open>C3: after a successful link, a method declared in a class \<open>b\<close> has the same slot in
  every subclass \<open>d\<close> of \<open>b\<close>, and the slot is an index of both vtables; when \<open>d\<close> declares
  the method itself, the tokens of \<open>d\<close> stand at that slot; and a method that \<open>d\<close> declares
  and that has no slot in the base of \<open>d\<close> gets a slot past the end of the vtable of the
  base.\<close>

theorem override_keeps_slot:
  assumes link: "resolve_and_link D = Some (Inr T)" and dist: "distinct (map name D)"
    and b: "b \<in> set D" and d: "d \<in> set D"
    and sub: "is_subclass_of T d b = Some True"
    and m: "m \<in> fst ` set (methods b)"
  shows "\<exists>s. map_of (method_slot T (name b)) m = Some s
            \<and> map_of (method_slot T (name d)) m = Some s
            \<and> s < length (vtable_tokens T (name b)) \<and> s < length (vtable_tokens T (name d))
            \<and> (distinct (map fst (methods d)) \<longrightarrow>
                 (\<forall>toks. map_of (methods d) m = Some toks \<longrightarrow> vtable_tokens T (name d) ! s = toks))
            \<and> (\<forall>m'\<in>fst ` set (methods d).
                  (\<forall>bd. base_obj T d = Some bd \<longrightarrow> map_of (method_slot T (name bd)) m' = None) \<longrightarrow>
                  (\<exists>s'. map_of (method_slot T (name d)) m' = Some s'
                        \<and> (\<forall>bd. base_obj T d = Some bd \<longrightarrow> length (vtable_tokens T (name bd)) \<le> s')
                        \<and> s' < length (vtable_tokens T (name d))))"
proof -
  from link dist have lk: "linked D T" by (rule link_linked)
  from is_subclass_of_ancestor [OF lk d b sub]
  have dc: "\<not> is_interface d" and bc: "\<not> is_interface b" and anc: "ancestor T d b" by simp_all
  note vtb = vt_okD(1,2) [OF linked_class(5) [OF lk b bc]]
  note vtd = vt_okD(1,2) [OF linked_class(5) [OF lk d dc]]
  have okd0: "slots_ok (vt_start T d)" using lk d dc by (rule vt_start_slots_ok)
  from m have "m \<in> dom (map_of (method_slot T (name b)))" using vtb by (simp add: add_methods_dom)
  then obtain s where sb: "map_of (method_slot T (name b)) m = Some s" by auto
  from ancestor_slots [OF lk anc d dc, of m s] sb
  have sd: "map_of (method_slot T (name d)) m = Some s" by simp
  from slots_ok_bound [OF linked_slots_ok [OF lk b bc] sb]
  have ub: "s < length (vtable_tokens T (name b))" .
  from slots_ok_bound [OF linked_slots_ok [OF lk d dc] sd]
  have ud: "s < length (vtable_tokens T (name d))" .
  have tk: "distinct (map fst (methods d)) \<longrightarrow>
                 (\<forall>toks. map_of (methods d) m = Some toks \<longrightarrow> vtable_tokens T (name d) ! s = toks)"
  proof (intro impI allI)
    fix toks assume dm: "distinct (map fst (methods d))" and t: "map_of (methods d) m = Some toks"
    from add_methods_tokens [OF okd0 dm, of m s] sd vtd t
    show "vtable_tokens T (name d) ! s = toks" by simp
  qed
  have fr: "\<forall>m'\<in>fst ` set (methods d).
                  (\<forall>bd. base_obj T d = Some bd \<longrightarrow> map_of (method_slot T (name bd)) m' = None) \<longrightarrow>
                  (\<exists>s'. map_of (method_slot T (name d)) m' = Some s'
                        \<and> (\<forall>bd. base_obj T d = Some bd \<longrightarrow> length (vtable_tokens T (name bd)) \<le> s')
                        \<and> s' < length (vtable_tokens T (name d)))"
  proof (intro ballI impI)
    fix m' assume m': "m' \<in> fst ` set (methods d)"
      and nb: "\<forall>bd. base_obj T d = Some bd \<longrightarrow> map_of (method_slot T (name bd)) m' = None"
    have none: "map_of (fst (vt_start T d)) m' = None"
      using nb by (simp add: vt_start_base_obj [OF lk d dc] split: option.splits)
    from add_methods_fresh [OF okd0 m' none] vtd
    obtain s' where s': "map_of (method_slot T (name d)) m' = Some s'"
      "length (snd (vt_start T d)) \<le> s'" "s' < length (vtable_tokens T (name d))" by auto
    from s'(2) have "\<forall>bd. base_obj T d = Some bd \<longrightarrow> length (vtable_tokens T (name bd)) \<le> s'"
      by (simp add: vt_start_base_obj [OF lk d dc] split: option.splits)
    with s' show "\<exists>s'. map_of (method_slot T (name d)) m' = Some s'
                        \<and> (\<forall>bd. base_obj T d = Some bd \<longrightarrow> length (vtable_tokens T (name bd)) \<le> s')
                        \<and> s' < length (vtable_tokens T (name d))" by blast
  qed
  show ?thesis by (intro exI [of _ s] conjI sb sd ub ud tk fr)
qed

lemma ex_distinct: "distinct (map name ex_types)"
  by (simp add: ex_defs)

lemma ex_members: "ex_A \<in> set ex_types" "ex_B \<in> set ex_types" "ex_I \<in> set ex_types"
  by (simp_all add: ex_types_def)

lemma ex_kinds: "\<not> is_interface ex_A" "\<not> is_interface ex_B" "is_interface ex_I"
  by (simp_all add: ex_defs)

lemma ex_names: "name ex_A = ''A''" "name ex_B = ''B''" "name ex_I = ''I''"
  by (simp_all add: ex_defs)

lemma ex_fields: "fields_decl ex_A = [''a'']" "fields_decl ex_B = [''b'']"
  by (simp_all add: ex_defs)

lemma ex_table_base:
  "base ex_table ''A'' = None" "base ex_table ''B'' = Some ''A''" "base ex_table ''I'' = None"
  by (simp_all add: ex_table_def link_eval ex_defs)

lemma ex_table_interfaces:
  "interfaces ex_table ''A'' = [''I'']" "interfaces ex_table ''B'' = []"
  by (simp_all add: ex_table_def link_eval ex_defs)

lemma ex_table_slots:
  "method_slot ex_table ''A'' = [(''m'', 0)]" "method_slot ex_table ''B'' = [(''m'', 0), (''n'', 1)]"
  "method_slot ex_table ''I'' = [(''m'', 0)]"
  "vtable_tokens ex_table ''A'' = [[''a'', ''1'']]" "vtable_tokens ex_table ''B'' = [[''b''], [''a'']]"
  "vtable_plans ex_table ''A'' = [None]" "vtable_plans ex_table ''B'' = [None, None]"
  by (simp_all add: ex_table_def link_eval ex_defs)

lemma ex_table_index:
  "field_index ex_table ''A'' = index_map [''a'']" "field_index ex_table ''B'' = index_map [''a'', ''b'']"
  by (simp_all add: ex_table_def link_eval ex_defs)

lemma ex_base_obj: "base_obj ex_table ex_B = Some ex_A" "base_obj ex_table ex_A = None"
  "base_obj ex_table ex_I = None"
  by (simp_all add: base_obj_def ex_table_base ex_names ex_table_types lookup_type_def ex_types_def)

lemma ex_subclass: "is_subclass_of ex_table ex_B ex_A = Some True"
  "is_subclass_of ex_table ex_A ex_B = Some False"
  by (simp_all add: is_subclass_of_def is_subclass_loop_Some ex_base_obj ex_kinds ex_names)

theorem layout_append_index_stable_witness:
  "all_fields ex_table ex_A = [''a'']
   \<and> all_fields ex_table ex_B = all_fields ex_table ex_A @ [''b'']
   \<and> is_subclass_of ex_table ex_B ex_A = Some True
   \<and> field_index ex_table ''B'' ''a'' = field_index ex_table ''A'' ''a''
   \<and> field_index ex_table ''A'' ''a'' = Some 0"
  using layout_append_index_stable [OF ex_link ex_distinct ex_members(1) ex_kinds(1)]
    layout_append_index_stable [OF ex_link ex_distinct ex_members(2) ex_kinds(2)]
  by (simp add: ex_members ex_subclass ex_base_obj all_fields_def ex_table_all_fields ex_names
      index_map_def ex_fields)

theorem override_keeps_slot_witness:
  "map_of (method_slot ex_table ''A'') ''m'' = Some 0
   \<and> map_of (method_slot ex_table ''B'') ''m'' = Some 0
   \<and> vtable_tokens ex_table ''B'' ! 0 = [''b'']
   \<and> map_of (method_slot ex_table ''B'') ''n'' = Some 1
   \<and> length (vtable_tokens ex_table ''A'') = 1"
  using override_keeps_slot [OF ex_link ex_distinct ex_members(1) ex_members(2) ex_subclass(1), of "''m''"]
  by (simp add: ex_table_slots ex_names ex_defs)

section \<open>The statement \<open>is\<close>\<close>

text \<open>C9: on a linked table \<open>_exec_is\<close> always returns and prints one line; the line is
  negative when the variable or the type name is unknown, and otherwise, for an object
  whose runtime type is a class, positive exactly when that type is the named class, a
  subclass of it, or implements the named interface.\<close>

theorem exec_is_never_fails:
  assumes link: "resolve_and_link D = Some (Inr T)" and dist: "distinct (map name D)"
  shows "(\<exists>r. exec_is T s var_name type_name = Some (say s r))
     \<and> (map_of (env s) var_name = None \<or> lookup_type (types T) type_name = None \<longrightarrow>
          exec_is T s var_name type_name = Some (say s False))
     \<and> (\<forall>b t. map_of (env s) var_name = Some b \<and> lookup_type (types T) type_name = Some t
               \<and> \<not> is_interface (cls (store s (inst b))) \<longrightarrow>
          exec_is T s var_name type_name = Some (say s (is_a T (cls (store s (inst b))) t)))"
proof -
  from link dist have lk: "linked D T" by (rule link_linked)
  note wf = linked_wf_all [OF lk]
  have unknown: "map_of (env s) var_name = None \<or> lookup_type (types T) type_name = None \<Longrightarrow>
          exec_is T s var_name type_name = Some (say s False)"
    by (auto simp: exec_is_def say_def split: option.splits)
  have sub: "\<And>rt t. is_subclass_of T rt t =
      Some (\<not> is_interface rt \<and> \<not> is_interface t \<and> (\<exists>a. ancestor T rt a \<and> name a = name t))"
    using is_subclass_loop_wf [OF wf refl] by (simp add: is_subclass_of_def)
  have imp: "\<And>rt t. implements_interface T rt t =
      Some (is_interface t \<and> (if is_interface rt then name t = name rt
              else (\<exists>a. ancestor T rt a \<and> name t \<in> set (interfaces T (name a)))))"
    using all_interfaces_loop_wf [OF wf refl]
    by (auto simp: implements_interface_def all_interfaces_def)
  have known: "\<And>b t. map_of (env s) var_name = Some b \<Longrightarrow> lookup_type (types T) type_name = Some t \<Longrightarrow>
      exec_is T s var_name type_name =
        Some (say s (if is_interface t then
                       (if is_interface (cls (store s (inst b))) then name t = name (cls (store s (inst b)))
                        else (\<exists>a. ancestor T (cls (store s (inst b))) a \<and> name t \<in> set (interfaces T (name a))))
                     else \<not> is_interface (cls (store s (inst b)))
                          \<and> (\<exists>a. ancestor T (cls (store s (inst b))) a \<and> name a = name t)))"
    by (simp add: exec_is_def say_def sub imp)
  have ex: "\<exists>r. exec_is T s var_name type_name = Some (say s r)"
  proof (cases "map_of (env s) var_name = None \<or> lookup_type (types T) type_name = None")
    case True
    from unknown [OF this] show ?thesis by blast
  next
    case False
    then obtain b t where "map_of (env s) var_name = Some b" "lookup_type (types T) type_name = Some t"
      by auto
    from known [OF this] show ?thesis by blast
  qed
  have char: "\<forall>b t. map_of (env s) var_name = Some b \<and> lookup_type (types T) type_name = Some t
               \<and> \<not> is_interface (cls (store s (inst b))) \<longrightarrow>
          exec_is T s var_name type_name = Some (say s (is_a T (cls (store s (inst b))) t))"
    using known by (auto simp: is_a_def)
  from ex unknown char show ?thesis by blast
qed

lemma ex_lookup:
  "lookup_type (types ex_table) ''A'' = Some ex_A" "lookup_type (types ex_table) ''B'' = Some ex_B"
  "lookup_type (types ex_table) ''I'' = Some ex_I"
  by (simp_all add: ex_table_types lookup_type_def ex_types_def ex_names)

lemma ex_s1_run: "exec_let_new ex_table ex_s0 ''x'' ''B'' [5, 6] = Inr ex_s1"
  by (simp add: ex_s1_def exec_let_new_def instantiate_def ex_lookup ex_kinds all_fields_def
      ex_names ex_table_all_fields Let_def)

lemma ex_s1_state:
  "env ex_s1 = [(''x'', \<lparr> inst = 0, view_cls = ex_B \<rparr>)]" "heap ex_s1 = [0]"
  "store ex_s1 0 = \<lparr> cls = ex_B, inst_values = [5, 6] \<rparr>"
  by (simp_all add: ex_s1_def exec_let_new_def instantiate_def ex_lookup ex_kinds all_fields_def
      ex_names ex_table_all_fields ex_s0_def new_interp_def)

lemma ex_ancestor: "ancestor ex_table ex_B ex_A"
  by (rule ancestor.up [OF ex_base_obj(1) ancestor.self])

lemma ex_is_a: "is_a ex_table ex_B ex_I" "is_a ex_table ex_B ex_A"
  using ex_ancestor by (auto simp: is_a_def ex_kinds ex_names ex_table_interfaces)

theorem exec_is_never_fails_witness:
  "exec_is ex_table ex_s1 ''x'' ''I'' = Some (say ex_s1 True)
   \<and> exec_is ex_table ex_s1 ''x'' ''A'' = Some (say ex_s1 True)
   \<and> exec_is ex_table ex_s1 ''y'' ''A'' = Some (say ex_s1 False)"
  using exec_is_never_fails [OF ex_link ex_distinct, of ex_s1 "''x''" "''I''"]
    exec_is_never_fails [OF ex_link ex_distinct, of ex_s1 "''x''" "''A''"]
    exec_is_never_fails [OF ex_link ex_distinct, of ex_s1 "''y''" "''A''"]
  by (simp add: ex_s1_state ex_lookup ex_kinds ex_is_a)

lemma linked_slot_dom:
  assumes lk: "linked D T" and c: "c \<in> set D" and cls: "\<not> is_interface c"
  shows "dom (map_of (method_slot T (name c))) = {m. \<exists>a. ancestor T c a \<and> m \<in> fst ` set (methods a)}"
  using assms
proof (induction rule: linked_class_induct)
  case (root c)
  note vt = vt_okD(1) [OF linked_class(5) [OF lk root(1,2)]]
  from root have st: "vt_start T c = ([], [])" by (simp add: vt_start_def)
  from root(4) have "\<And>a. ancestor T c a \<longleftrightarrow> a = c"
    by (subst ancestor_cases_start) simp
  with vt st show ?case by (simp add: add_methods_dom)
next
  case (derived c b)
  note vt = vt_okD(1) [OF linked_class(5) [OF lk derived(1,2)]]
  from derived have st: "vt_start T c = (method_slot T (name b), vtable_tokens T (name b))"
    by (simp add: vt_start_def)
  from derived(6) have anc: "\<And>a. ancestor T c a \<longleftrightarrow> a = c \<or> ancestor T b a"
    by (subst ancestor_cases_start) simp
  have "dom (map_of (method_slot T (name c)))
          = fst ` set (methods c) \<union> dom (map_of (method_slot T (name b)))"
    using vt st by (simp add: add_methods_dom)
  also have "\<dots> = fst ` set (methods c) \<union> {m. \<exists>a. ancestor T b a \<and> m \<in> fst ` set (methods a)}"
    using derived.IH by simp
  also have "\<dots> = {m. \<exists>a. ancestor T c a \<and> m \<in> fst ` set (methods a)}"
    by (auto simp: anc)
  finally show ?case .
qed

lemma compile_loop_error:
  "compile_loop T runtime mn toks plan = Inl e \<Longrightarrow> \<exists>tok. e = UnknownFieldInMethod tok"
  by (induction toks arbitrary: plan) (auto split: if_splits option.splits)

lemma vtable_plan_in_range:
  assumes "slot < length (class_vtable_plans s (name runtime))"
    and "slot < length (vtable_tokens T (name runtime))"
  shows "vtable_plan cfg T e s runtime slot \<noteq> Inl PyIndexError"
  using assms
  by (auto simp: vtable_plan_def Let_def compile_plan_def split: option.splits sum.splits
      dest: compile_loop_error)

section \<open>The slot of a visible method\<close>

text \<open>C10: on a linked table, with a class as view type, once the method is visible
  through the view and the runtime type passes the subclass check, the method has a slot in
  the slot map of the view and that slot is an index of the vtable and of the plan array of
  the runtime type; the slot map of a class holds exactly the method names declared along
  its base chain, the vtable of the runtime type is at least as long as that of the view,
  and the dynamic vtable path of \<open>_resolve_call_plan\<close> ends neither in the internal
  no-slot error nor in an index error.\<close>

theorem vtable_slot_always_valid:
  assumes link: "resolve_and_link D = Some (Inr T)" and dist: "distinct (map name D)"
    and view: "view \<in> set D" and runtime: "runtime \<in> set D" and vc: "\<not> is_interface view"
    and vis: "lookup_method T view m = Some (Some toks)"
    and sub: "is_subclass_of T runtime view = Some sub"
    and pass: "sub \<or> name runtime = name view"
  shows "(\<exists>slot. map_of (method_slot T (name view)) m = Some slot
            \<and> slot < length (vtable_tokens T (name runtime))
            \<and> slot < length (vtable_plans T (name runtime)))
     \<and> dom (map_of (method_slot T (name view)))
          = {m. \<exists>a. ancestor T view a \<and> m \<in> fst ` set (methods a)}
     \<and> length (vtable_tokens T (name view)) \<le> length (vtable_tokens T (name runtime))
     \<and> (\<forall>cfg e s. enable_vtable cfg
            \<and> length (class_vtable_plans s (name runtime)) = length (vtable_tokens T (name runtime))
          \<longrightarrow> (\<exists>r. resolve_call_plan cfg T e s view runtime m True = Some r
                  \<and> r \<noteq> Inl (InternalNoSlot m (name view)) \<and> r \<noteq> Inl PyIndexError))"
proof -
  from link dist have lk: "linked D T" by (rule link_linked)
  have rv: "\<not> is_interface runtime \<and> ancestor T runtime view"
  proof (cases sub)
    case True
    with sub is_subclass_of_ancestor [OF lk runtime view] show ?thesis by simp
  next
    case False
    with pass have "name runtime = name view" by simp
    with dist runtime view have "runtime = view" by (rule distinct_name_eq)
    with vc show ?thesis by (simp add: ancestor.self)
  qed
  then have rc: "\<not> is_interface runtime" and anc: "ancestor T runtime view" by simp_all
  from lookup_slots [OF lk view vc, of m] vis vc
  obtain slot where slot: "map_of (method_slot T (name view)) m = Some slot"
    by (auto simp: lookup_method_def)
  from ancestor_slots [OF lk anc runtime rc, of m slot] slot
  have rslot: "map_of (method_slot T (name runtime)) m = Some slot"
    and len: "length (vtable_tokens T (name view)) \<le> length (vtable_tokens T (name runtime))"
    by simp_all
  from slots_ok_bound [OF linked_slots_ok [OF lk runtime rc] rslot]
  have b1: "slot < length (vtable_tokens T (name runtime))" .
  with vt_okD(3) [OF linked_class(5) [OF lk runtime rc]]
  have b2: "slot < length (vtable_plans T (name runtime))" by simp
  have res: "\<forall>cfg e s. enable_vtable cfg
            \<and> length (class_vtable_plans s (name runtime)) = length (vtable_tokens T (name runtime))
          \<longrightarrow> (\<exists>r. resolve_call_plan cfg T e s view runtime m True = Some r
                  \<and> r \<noteq> Inl (InternalNoSlot m (name view)) \<and> r \<noteq> Inl PyIndexError)"
  proof (intro allI impI)
    fix cfg :: config and e :: int and s :: interp
    assume a: "enable_vtable cfg
            \<and> length (class_vtable_plans s (name runtime)) = length (vtable_tokens T (name runtime))"
    with b1 have "vtable_plan cfg T e s runtime slot \<noteq> Inl PyIndexError"
      by (intro vtable_plan_in_range) simp_all
    with a vis sub pass slot vc
    show "\<exists>r. resolve_call_plan cfg T e s view runtime m True = Some r
                  \<and> r \<noteq> Inl (InternalNoSlot m (name view)) \<and> r \<noteq> Inl PyIndexError"
      by (cases "vtable_plan cfg T e s runtime slot")
         (auto simp: resolve_call_plan_def Let_def vtable_plan_def compile_plan_def
           split: option.splits sum.splits if_splits dest: compile_loop_error)
  qed
  from slot b1 b2 have ex: "\<exists>slot. map_of (method_slot T (name view)) m = Some slot
            \<and> slot < length (vtable_tokens T (name runtime))
            \<and> slot < length (vtable_plans T (name runtime))" by blast
  show ?thesis by (intro conjI ex linked_slot_dom [OF lk view vc] len res)
qed

lemma ex_methods:
  "methods ex_A = [(''m'', [''a'', ''1''])]" "methods ex_B = [(''n'', [''a'']), (''m'', [''b''])]"
  "methods ex_I = [(''m'', [])]"
  by (simp_all add: ex_defs)

lemma ex_lookup_method:
  "lookup_method ex_table ex_A ''m'' = Some (Some [''a'', ''1''])"
  "lookup_method ex_table ex_B ''m'' = Some (Some [''b''])"
  "lookup_method ex_table ex_I ''m'' = Some (Some [])"
  by (simp_all add: lookup_method_def lookup_method_loop_Some ex_kinds ex_methods)

lemma ex_s1_plans:
  "class_vtable_plans ex_s1 = vtable_plans ex_table" "plan_cache ex_s1 = Map.empty"
  "metrics_of ex_s1 = new_metrics"
  by (simp_all add: ex_s1_def exec_let_new_def instantiate_def ex_lookup ex_kinds all_fields_def
      ex_names ex_table_all_fields ex_s0_def new_interp_def)

theorem vtable_slot_always_valid_witness:
  "map_of (method_slot ex_table ''A'') ''m'' = Some 0
   \<and> 0 < length (vtable_tokens ex_table ''B'')
   \<and> length (vtable_tokens ex_table ''A'') \<le> length (vtable_tokens ex_table ''B'')
   \<and> (\<exists>r. resolve_call_plan ex_cfg_vtable ex_table 0 ex_s1 ex_A ex_B ''m'' True = Some r
           \<and> r \<noteq> Inl (InternalNoSlot ''m'' ''A'') \<and> r \<noteq> Inl PyIndexError)"
  using vtable_slot_always_valid [OF ex_link ex_distinct ex_members(1) ex_members(2) ex_kinds(1)
      ex_lookup_method(1) ex_subclass(1)]
  by (simp add: ex_names ex_table_slots ex_s1_plans ex_cfg_vtable_def)

section \<open>The global plan cache\<close>

lemma with_metrics_frame [simp]:
  "plan_cache (with_metrics cfg f s) = plan_cache s"
  "env (with_metrics cfg f s) = env s" "heap (with_metrics cfg f s) = heap s"
  "store (with_metrics cfg f s) = store s"
  "class_vtable_plans (with_metrics cfg f s) = class_vtable_plans s"
  "class_itable_plans (with_metrics cfg f s) = class_itable_plans s"
  by (simp_all add: with_metrics_def)

lemma resolve_fills_cache:
  assumes "enable_cache cfg" and "\<not> (dynamic \<and> enable_vtable cfg)"
    and "resolve_call_plan cfg T e s view runtime m dynamic = Some (Inr (plan, s1))"
  shows "plan_cache s1 (if dynamic then ''dyn'' else ''static'', name view, name runtime, m) = Some plan
         \<and> (\<exists>toks. lookup_method T view m = Some (Some toks))"
  using assms
  by (auto simp: resolve_call_plan_def Let_def split: option.splits sum.splits if_splits prod.splits)

text \<open>C4: with the global plan cache enabled, a resolution on the non-vtable path that
  succeeded is followed, for the same view type, runtime type, method name and call kind, by
  a resolution that returns the same plan and changes nothing in the interpreter but the
  counter of cache hits (when metrics are enabled): the counters of base-chain steps, class
  hops, probes, failed probes and resolutions stay as they are, and so does the cache.\<close>

theorem cached_resolution_idempotent:
  assumes cache: "enable_cache cfg" and path: "\<not> (dynamic \<and> enable_vtable cfg)"
    and first: "resolve_call_plan cfg T e1 s view runtime m dynamic = Some (Inr (plan, s1))"
  shows "resolve_call_plan cfg T e2 s1 view runtime m dynamic
           = Some (Inr (plan, with_metrics cfg count_hit s1))
     \<and> resolve_steps (metrics_of (with_metrics cfg count_hit s1)) = resolve_steps (metrics_of s1)
     \<and> class_jumps (metrics_of (with_metrics cfg count_hit s1)) = class_jumps (metrics_of s1)
     \<and> class_probes (metrics_of (with_metrics cfg count_hit s1)) = class_probes (metrics_of s1)
     \<and> resolve_fails (metrics_of (with_metrics cfg count_hit s1)) = resolve_fails (metrics_of s1)
     \<and> resolve_calls (metrics_of (with_metrics cfg count_hit s1)) = resolve_calls (metrics_of s1)
     \<and> plan_cache (with_metrics cfg count_hit s1) = plan_cache s1"
proof -
  from resolve_fills_cache [OF assms] obtain toks where
    c: "plan_cache s1 (if dynamic then ''dyn'' else ''static'', name view, name runtime, m) = Some plan"
    and v: "lookup_method T view m = Some (Some toks)" by auto
  from c v cache path
  have "resolve_call_plan cfg T e2 s1 view runtime m dynamic
           = Some (Inr (plan, with_metrics cfg count_hit s1))"
    by (auto simp: resolve_call_plan_def Let_def)
  then show ?thesis by (simp add: with_metrics_def count_hit_def)
qed

lemmas token_eval = is_int_def is_digit_def drop_sign_def drop_newline_def py_int_def digit_value_def

lemmas resolve_eval = resolve_call_plan_def linear_lookup_def lookup_with_steps_def
  lookup_with_steps_loop_Some compile_plan_def with_metrics_def count_miss_def count_hit_def
  count_resolve_def Let_def

lemma ex_compile_b: "compile_loop ex_table ex_B mn [''b''] [] = Inr [(True, 1)]"
  by (simp add: token_eval ex_names ex_table_index index_map_def)

lemma ex_resolve_static:
  "resolve_call_plan ex_cfg ex_table 7 ex_s1 ex_B ex_B ''m'' False = Some (Inr ([(True, 1)], ex_s2))"
  by (simp add: ex_s2_def resolve_eval ex_lookup_method ex_cfg_def ex_s1_plans ex_kinds
      ex_methods token_eval ex_names ex_table_index index_map_def)

theorem cached_resolution_idempotent_witness:
  "resolve_call_plan ex_cfg ex_table 9 ex_s2 ex_B ex_B ''m'' False
     = Some (Inr ([(True, 1)], with_metrics ex_cfg count_hit ex_s2))
   \<and> resolve_steps (metrics_of (with_metrics ex_cfg count_hit ex_s2)) = resolve_steps (metrics_of ex_s2)"
  using cached_resolution_idempotent [of ex_cfg False ex_table 7 ex_s1 ex_B ex_B "''m''"
      "[(True, 1)]" ex_s2 9] ex_resolve_static
  by (simp add: ex_cfg_def)

section \<open>The metrics report\<close>

text \<open>C7, as the claim states it, fails: with metrics enabled, two runs that differ in the
  counters of class hops, method probes and failed probes print the same report, whose
  labels are the nine below.\<close>

theorem metrics_report_counterexample:
  "run_report ex_cfg
       (ex_s1\<lparr> metrics_of := new_metrics\<lparr> class_jumps := 3, class_probes := 5, resolve_fails := 2 \<rparr> \<rparr>)
     = run_report ex_cfg (ex_s1\<lparr> metrics_of := new_metrics \<rparr>)
   \<and> map fst (run_report ex_cfg (ex_s1\<lparr> metrics_of := new_metrics \<rparr>))
     = [''resolve_calls'', ''cache_hits'', ''cache_misses'', ''vtable_uses'', ''itable_uses'',
        ''resolve_steps'', ''resolve_time_ns'', ''gc_runs'', ''gc_collected'']"
  by (simp add: run_report_def metrics_print_def ex_cfg_def new_metrics_def)

text \<open>C7, amended: when metrics are enabled, the report printed at the end of the run
  shows the total resolutions, the cache hits and misses, the vtable and itable uses, the
  total base-chain steps, the total resolution time, the collection runs and the objects
  collected, and nothing else: it does not depend on the class-hop, method-probe and
  failed-probe counters.\<close>

theorem metrics_report_counters:
  assumes "enable_metrics cfg"
  shows "run_report cfg s =
           [(''resolve_calls'', resolve_calls (metrics_of s)),
            (''cache_hits'', cache_hits (metrics_of s)),
            (''cache_misses'', cache_misses (metrics_of s)),
            (''vtable_uses'', vtable_uses (metrics_of s)),
            (''itable_uses'', itable_uses (metrics_of s)),
            (''resolve_steps'', resolve_steps (metrics_of s)),
            (''resolve_time_ns'', resolve_time_ns (metrics_of s)),
            (''gc_runs'', gc_runs (metrics_of s)),
            (''gc_collected'', gc_collected (metrics_of s))]
     \<and> run_report cfg
           (s\<lparr> metrics_of := (metrics_of s)\<lparr> class_jumps := j, class_probes := p, resolve_fails := f \<rparr> \<rparr>)
         = run_report cfg s"
  using assms by (simp add: run_report_def metrics_print_def)

theorem metrics_report_counters_witness:
  "run_report ex_cfg ex_s2 =
           [(''resolve_calls'', 1), (''cache_hits'', 0), (''cache_misses'', 1),
            (''vtable_uses'', 0), (''itable_uses'', 0), (''resolve_steps'', 0),
            (''resolve_time_ns'', 7), (''gc_runs'', 0), (''gc_collected'', 0)]
   \<and> run_report ex_cfg
           (ex_s2\<lparr> metrics_of := (metrics_of ex_s2)\<lparr> class_jumps := 0, class_probes := 0, resolve_fails := 0 \<rparr> \<rparr>)
         = run_report ex_cfg ex_s2"
  using metrics_report_counters [of ex_cfg ex_s2 0 0 0]
  by (simp add: ex_s2_def resolve_eval ex_lookup_method ex_cfg_def ex_s1_plans ex_kinds
      ex_methods token_eval ex_names ex_table_index index_map_def new_metrics_def)

section \<open>Collection\<close>

lemma gc_collect_heap: "heap (gc_collect cfg s) = filter (\<lambda>a. a \<in> roots s) (heap s)"
  by (simp add: gc_collect_def roots_def Let_def)

lemma gc_collect_env: "env (gc_collect cfg s) = env s"
  by (simp add: gc_collect_def Let_def)

lemma length_filter_compl:
  "int (length xs) - int (length (filter P xs)) = int (length (filter (\<lambda>x. \<not> P x) xs))"
  using sum_length_filter_compl [of P xs] by simp

lemma gc_collect_counter:
  "gc_collected (metrics_of (gc_collect cfg s)) =
     gc_collected (metrics_of s)
       + (if enable_metrics cfg then int (length (filter (\<lambda>a. a \<notin> roots s) (heap s))) else 0)"
  using length_filter_compl [of "heap s" "\<lambda>a. a \<in> roots s"]
  by (simp add: gc_collect_def with_metrics_def roots_def Let_def)

lemma roots_after_free:
  "roots (s\<lparr> env := AList.delete x (env s) \<rparr>) = (\<lambda>(n, b). inst b) ` {p \<in> set (env s). fst p \<noteq> x}"
  by (auto simp: roots_def AList.delete_eq)

lemma length_filter_eq_distinct:
  "distinct xs \<Longrightarrow> x \<in> set xs \<Longrightarrow> length (filter (\<lambda>a. a = x) xs) = 1"
  by (induction xs) (auto simp: filter_empty_conv)

lemma ex_s1_next: "next_id ex_s1 = 1"
  by (simp add: ex_s1_def exec_let_new_def instantiate_def ex_lookup ex_kinds all_fields_def
      ex_names ex_table_all_fields ex_s0_def new_interp_def)

lemma ex_t1_run: "exec_let_new ex_table ex_s1 ''x'' ''B'' [7, 8] = Inr ex_t1"
  by (simp add: ex_t1_def exec_let_new_def instantiate_def ex_lookup ex_kinds all_fields_def
      ex_names ex_table_all_fields Let_def)

lemma ex_t1_state:
  "env ex_t1 = [(''x'', \<lparr> inst = 1, view_cls = ex_B \<rparr>)]" "heap ex_t1 = [0, 1]"
  "metrics_of ex_t1 = new_metrics"
  by (simp_all add: ex_t1_def exec_let_new_def instantiate_def ex_lookup ex_kinds all_fields_def
      ex_names ex_table_all_fields Let_def ex_s1_state ex_s1_next ex_s1_plans)

text \<open>C5, as the claim states it, fails on the counter. With collection enabled and metrics
  disabled, \<open>let x = new B(5, 6)\<close>, \<open>free x\<close>, \<open>gc\<close> empties the heap and leaves the counter
  as it was. With both enabled, \<open>let x = new B(5, 6)\<close>, \<open>let x = new B(7, 8)\<close>, \<open>free x\<close>,
  \<open>gc\<close> removes the object that \<open>x\<close> alone named and the object that lost its name at the
  second \<open>let\<close>: the counter goes up by 2.\<close>

theorem gc_counter_counterexample:
  "exec_free ex_s1 ''x'' = Inr ex_freed
   \<and> heap ex_freed = [0]
   \<and> heap (exec_gc ex_cfg_quiet ex_freed) = []
   \<and> gc_collected (metrics_of (exec_gc ex_cfg_quiet ex_freed)) = gc_collected (metrics_of ex_freed)
   \<and> exec_let_new ex_table ex_s1 ''x'' ''B'' [7, 8] = Inr ex_t1
   \<and> exec_free ex_t1 ''x'' = Inr ex_t2
   \<and> heap ex_t2 = [0, 1]
   \<and> heap (exec_gc ex_cfg ex_t2) = []
   \<and> gc_collected (metrics_of (exec_gc ex_cfg ex_t2)) = gc_collected (metrics_of ex_t2) + 2"
  by (simp add: ex_t1_run exec_free_def ex_freed_def ex_t2_def ex_s1_state ex_t1_state exec_gc_def
      gc_collect_def with_metrics_def ex_cfg_def ex_cfg_quiet_def Let_def)

text \<open>C5, amended: with collection enabled, \<open>gc\<close> filters the heap down to exactly the
  objects referenced by some environment binding. After \<open>free\<close> has removed the only name
  bound to an object, the next \<open>gc\<close> removes that object from the heap, and an object
  still referenced by a binding is never removed. The collected counter goes up by the
  number of objects removed when metrics are enabled, which is exactly 1 when the freed
  object was the only unreferenced object on a heap without repetitions, and it does not
  change when metrics are disabled.\<close>

theorem gc_after_free:
  assumes gc: "enable_gc cfg" and free: "exec_free s x = Inr s1"
    and bound: "map_of (env s) x = Some b"
    and only: "\<forall>(n, b')\<in>set (env s). inst b' = inst b \<longrightarrow> n = x"
  shows "heap (exec_gc cfg s1) = filter (\<lambda>a. a \<in> roots s1) (heap s1)
     \<and> inst b \<notin> set (heap (exec_gc cfg s1))
     \<and> (\<forall>a\<in>roots s1. a \<in> set (heap s1) \<longrightarrow> a \<in> set (heap (exec_gc cfg s1)))
     \<and> gc_collected (metrics_of (exec_gc cfg s1)) =
         gc_collected (metrics_of s1)
           + (if enable_metrics cfg then int (length (filter (\<lambda>a. a \<notin> roots s1) (heap s1))) else 0)
     \<and> (enable_metrics cfg \<and> distinct (heap s1) \<and> inst b \<in> set (heap s1)
          \<and> (\<forall>a\<in>set (heap s1). a \<noteq> inst b \<longrightarrow> a \<in> roots s1)
        \<longrightarrow> gc_collected (metrics_of (exec_gc cfg s1)) = gc_collected (metrics_of s1) + 1)"
proof -
  from free have s1: "s1 = s\<lparr> env := AList.delete x (env s) \<rparr>"
    by (simp add: exec_free_def split: if_splits)
  have nr: "inst b \<notin> roots s1"
    using only unfolding s1 roots_after_free by fastforce
  have h: "heap (exec_gc cfg s1) = filter (\<lambda>a. a \<in> roots s1) (heap s1)"
    using gc by (simp add: exec_gc_def gc_collect_heap)
  have cnt: "gc_collected (metrics_of (exec_gc cfg s1)) =
         gc_collected (metrics_of s1)
           + (if enable_metrics cfg then int (length (filter (\<lambda>a. a \<notin> roots s1) (heap s1))) else 0)"
    using gc by (simp add: exec_gc_def gc_collect_counter)
  have one: "enable_metrics cfg \<and> distinct (heap s1) \<and> inst b \<in> set (heap s1)
          \<and> (\<forall>a\<in>set (heap s1). a \<noteq> inst b \<longrightarrow> a \<in> roots s1)
        \<longrightarrow> gc_collected (metrics_of (exec_gc cfg s1)) = gc_collected (metrics_of s1) + 1"
  proof
    assume a: "enable_metrics cfg \<and> distinct (heap s1) \<and> inst b \<in> set (heap s1)
          \<and> (\<forall>a\<in>set (heap s1). a \<noteq> inst b \<longrightarrow> a \<in> roots s1)"
    then have "filter (\<lambda>a. a \<notin> roots s1) (heap s1) = filter (\<lambda>a. a = inst b) (heap s1)"
      using nr by (intro filter_cong) auto
    with a have "length (filter (\<lambda>a. a \<notin> roots s1) (heap s1)) = 1"
      by (simp add: length_filter_eq_distinct)
    with cnt a show "gc_collected (metrics_of (exec_gc cfg s1)) = gc_collected (metrics_of s1) + 1"
      by simp
  qed
  from h nr have out: "inst b \<notin> set (heap (exec_gc cfg s1))" by simp
  from h have keep: "\<forall>a\<in>roots s1. a \<in> set (heap s1) \<longrightarrow> a \<in> set (heap (exec_gc cfg s1))"
    by simp
  show ?thesis by (intro conjI h out keep cnt one)
qed

theorem gc_after_free_witness:
  "exec_free ex_s1 ''x'' = Inr ex_freed
   \<and> heap (exec_gc ex_cfg ex_freed) = []
   \<and> 0 \<notin> set (heap (exec_gc ex_cfg ex_freed))
   \<and> gc_collected (metrics_of (exec_gc ex_cfg ex_freed)) = gc_collected (metrics_of ex_freed) + 1"
proof -
  have f: "exec_free ex_s1 ''x'' = Inr ex_freed"
    by (simp add: exec_free_def ex_freed_def ex_s1_state)
  have r: "roots ex_freed = {}" by (simp add: roots_def ex_freed_def)
  from gc_after_free [of ex_cfg ex_s1 "''x''" ex_freed "\<lparr> inst = 0, view_cls = ex_B \<rparr>"] f r
  show ?thesis by (simp add: ex_cfg_def ex_s1_state ex_freed_def)
qed

section \<open>Static calls through an interface\<close>

text \<open>The linear walk with counters finds what the walk without counters finds.\<close>

lemma lookup_with_steps_tokens:
  assumes lk: "linked D T"
  shows "\<exists>r k mt'. lookup_method_loop T (Some c) m = Some r
            \<and> lookup_with_steps T c m mt = Some ((r, k), mt')"
  using lookup_walks_wf [OF linked_wf_all [OF lk] refl, of c m 0 mt]
  by (simp add: lookup_with_steps_def)

lemma interface_lookup_loop:
  assumes lk: "linked D T" and v: "view \<in> set D" and iv: "is_interface view"
  shows "lookup_method_loop T (Some view) m = Some (map_of (methods view) m)"
proof -
  from linked_interface(1) [OF lk v iv] have "base_obj T view = None" by (simp add: base_obj_def)
  then show ?thesis by (simp add: lookup_method_loop_Some split: option.splits)
qed

lemma ex_implements: "implements_interface ex_table ex_B ex_I = Some True"
  by (simp add: implements_interface_def all_interfaces_def all_interfaces_loop_Some ex_kinds
      ex_base_obj ex_names ex_table_interfaces)

text \<open>C6, as the claim states it, fails where the method is absent from the interface: the
  interface \<open>I\<close> does not declare \<open>n\<close>, the class \<open>B\<close> of the object implements \<open>I\<close> and
  declares \<open>n\<close>, and the static call through \<open>I\<close> fails at the visibility check instead of
  falling back to the walk from \<open>B\<close>.\<close>

theorem static_interface_counterexample:
  "is_interface ex_I
   \<and> map_of (methods ex_I) ''n'' = None
   \<and> implements_interface ex_table ex_B ex_I = Some True
   \<and> lookup_method ex_table ex_B ''n'' = Some (Some [''a''])
   \<and> resolve_call_plan ex_cfg ex_table 0 ex_s1 ex_I ex_B ''n'' False
        = Some (Inl (MethodNotInView ''n'' ''I''))"
  by (simp add: ex_implements ex_kinds ex_methods ex_names resolve_call_plan_def lookup_method_def
      lookup_method_loop_Some)

text \<open>C6, amended: for a static call whose view type is an interface that the runtime
  type implements, on a miss of the global cache, resolution looks the method up in the
  interface's own declared token map. A method absent from that map fails the visibility
  check. A non-empty token sequence is used directly as the body. An explicitly empty token
  list falls back to the linear base-chain walk starting at the runtime type, and fails
  when that walk finds nothing. The body is compiled against the runtime type: the call
  returns its plan, or fails with its compile error.\<close>

theorem static_interface_dispatch:
  assumes link: "resolve_and_link D = Some (Inr T)" and dist: "distinct (map name D)"
    and view: "view \<in> set D" and iv: "is_interface view"
    and runtime: "runtime \<in> set D" and rc: "\<not> is_interface runtime"
    and impl: "implements_interface T runtime view = Some True"
    and miss: "\<not> enable_cache cfg \<or> plan_cache s (''static'', name view, name runtime, m) = None"
  shows "\<exists>r. resolve_call_plan cfg T e s view runtime m False = Some r
     \<and> (case map_of (methods view) m of
           None \<Rightarrow> r = Inl (MethodNotInView m (name view))
         | Some toks \<Rightarrow>
             (case (if toks \<noteq> [] then Some (Some toks) else lookup_method T runtime m) of
                None \<Rightarrow> False
              | Some None \<Rightarrow> r = Inl (MethodNotResolved m)
              | Some (Some body) \<Rightarrow> map_sum id fst r = compile_plan T runtime m body))"
proof -
  from link dist have lk: "linked D T" by (rule link_linked)
  have lmv: "lookup_method T view m = Some (map_of (methods view) m)"
    using iv by (simp add: lookup_method_def)
  show ?thesis
  proof (cases "map_of (methods view) m")
    case None
    with lmv show ?thesis by (simp add: resolve_call_plan_def)
  next
    case (Some toks)
    define s1 where "s1 = (if enable_cache cfg then with_metrics cfg count_miss s else s)"
    from lookup_with_steps_tokens [OF lk, of view m "metrics_of s1"]
      interface_lookup_loop [OF lk view iv, of m] Some
    obtain k mt1 where ws: "lookup_with_steps T view m (metrics_of s1) = Some ((Some toks, k), mt1)"
      by auto
    from lookup_with_steps_tokens [OF lk, of runtime m mt1]
    obtain r2 k2 mt2 where lr: "lookup_method_loop T (Some runtime) m = Some r2"
      and wr: "lookup_with_steps T runtime m mt1 = Some ((r2, k2), mt2)" by auto
    from lr rc have lmr: "lookup_method T runtime m = Some r2" by (simp add: lookup_method_def)
    have ll: "linear_lookup T (metrics_of s1) view runtime m False =
                (if toks = [] then Some (Inr ((r2, k2), mt2)) else Some (Inr ((Some toks, k), mt1)))"
      using iv impl ws wr by (simp add: linear_lookup_def)
    have ck: "(if enable_cache cfg then plan_cache s (''static'', name view, name runtime, m) else None)
                = None"
      using miss by auto
    show ?thesis
    proof (cases "toks = []")
      case False
      with Some lmv ck ll show ?thesis
        by (cases "compile_plan T runtime m toks")
           (simp_all add: resolve_call_plan_def Let_def s1_def [symmetric])
    next
      case True
      show ?thesis
      proof (cases r2)
        case None
        with True Some lmv ck ll lmr show ?thesis
          by (simp add: resolve_call_plan_def Let_def s1_def [symmetric])
      next
        case body: (Some body)
        with True Some lmv ck ll lmr show ?thesis
          by (cases "compile_plan T runtime m body")
             (simp_all add: resolve_call_plan_def Let_def s1_def [symmetric])
      qed
    qed
  qed
qed

theorem static_interface_dispatch_witness:
  "map_of (methods ex_I) ''m'' = Some []
   \<and> lookup_method ex_table ex_B ''m'' = Some (Some [''b''])
   \<and> (\<exists>r. resolve_call_plan ex_cfg ex_table 0 ex_s1 ex_I ex_B ''m'' False = Some r
          \<and> map_sum id fst r = Inr [(True, 1)])"
  using static_interface_dispatch [OF ex_link ex_distinct ex_members(3) ex_kinds(3) ex_members(2)
      ex_kinds(2) ex_implements, of ex_cfg ex_s1 "''m''" 0]
  by (simp add: ex_methods ex_lookup_method ex_s1_plans compile_plan_def token_eval ex_names
      ex_table_index index_map_def)

section \<open>Fast path and fallback path\<close>

lemma compile_loop_name:
  "compile_loop T c mn toks plan = compile_loop T c mn' toks plan"
  by (induction toks arbitrary: plan) (auto split: option.splits)

lemma compile_plan_name: "compile_plan T c mn toks = compile_plan T c mn' toks"
  unfolding compile_plan_def by (rule compile_loop_name)

lemma dyn_plan_unique: "dyn_plan T c m p \<Longrightarrow> dyn_plan T c m q \<Longrightarrow> p = q"
  by (auto simp: dyn_plan_def)

lemma lookup_with_steps_fst:
  assumes lk: "linked D T" and w: "lookup_with_steps T c m mt = Some ((r, k), mt')"
  shows "lookup_method_loop T (Some c) m = Some r"
  using lookup_with_steps_tokens [OF lk, of c m mt] w by auto

lemma caches_ok_new:
  assumes lk: "linked D T"
  shows "caches_ok T (new_interp T mem)"
proof -
  have "vt_cache_ok T (vtable_plans T)"
    unfolding vt_cache_ok_def
  proof (intro ballI allI impI)
    fix c slot p
    assume c: "c \<in> set (types T)"
      and a: "\<not> is_interface c \<and> slot < length (vtable_plans T (name c))
                \<and> vtable_plans T (name c) ! slot = Some p"
    from lk c have cD: "c \<in> set D" by (simp add: linked_def)
    from a have cc: "\<not> is_interface c" by simp
    from vt_okD(3) [OF linked_class(5) [OF lk cD cc]] a
    show "slot < length (vtable_tokens T (name c))
        \<and> compile_plan T c ''<slot>'' (vtable_tokens T (name c) ! slot) = Inr p"
      by auto
  qed
  then show ?thesis
    by (simp add: caches_ok_def new_interp_def it_cache_ok_def pc_ok_def)
qed

lemma vtable_plan_res:
  assumes run: "vtable_plan cfg T e s rt slot = Inr (p, s')"
    and ok: "vt_cache_ok T (class_vtable_plans s)"
    and rt: "rt \<in> set (types T)" and rc: "\<not> is_interface rt"
    and dist: "distinct (map name (types T))"
  shows "slot < length (vtable_tokens T (name rt))
     \<and> compile_plan T rt ''<slot>'' (vtable_tokens T (name rt) ! slot) = Inr p
     \<and> vt_cache_ok T (class_vtable_plans s')
     \<and> class_itable_plans s' = class_itable_plans s \<and> plan_cache s' = plan_cache s"
proof -
  let ?plans = "class_vtable_plans s (name rt)"
  from run have sl: "slot < length ?plans"
    by (auto simp: vtable_plan_def Let_def split: if_splits)
  show ?thesis
  proof (cases "?plans ! slot")
    case (Some cached)
    with run sl have e: "p = cached" "s' = with_metrics cfg count_hit s"
      by (auto simp: vtable_plan_def Let_def)
    from ok rt rc sl Some have "slot < length (vtable_tokens T (name rt))
        \<and> compile_plan T rt ''<slot>'' (vtable_tokens T (name rt) ! slot) = Inr cached"
      unfolding vt_cache_ok_def by blast
    with e ok show ?thesis by simp
  next
    case None
    with run sl have b: "slot < length (vtable_tokens T (name rt))"
      and c: "compile_plan T rt ''<slot>'' (vtable_tokens T (name rt) ! slot) = Inr p"
      and s': "s' = with_metrics cfg (count_resolve e)
                 ((with_metrics cfg count_miss s)\<lparr> class_vtable_plans :=
                     (class_vtable_plans (with_metrics cfg count_miss s))
                       (name rt := ?plans[slot := Some p]) \<rparr>)"
      by (auto simp: vtable_plan_def Let_def split: if_splits sum.splits)
    have vp: "class_vtable_plans s' = (class_vtable_plans s)(name rt := ?plans[slot := Some p])"
      by (simp add: s')
    have "vt_cache_ok T (class_vtable_plans s')"
      unfolding vt_cache_ok_def vp
    proof (intro ballI allI impI)
      fix c sl' q
      assume cT: "c \<in> set (types T)"
        and a: "\<not> is_interface c
                \<and> sl' < length (((class_vtable_plans s)(name rt := ?plans[slot := Some p])) (name c))
                \<and> ((class_vtable_plans s)(name rt := ?plans[slot := Some p])) (name c) ! sl' = Some q"
      show "sl' < length (vtable_tokens T (name c))
        \<and> compile_plan T c ''<slot>'' (vtable_tokens T (name c) ! sl') = Inr q"
      proof (cases "name c = name rt")
        case False
        with a ok cT show ?thesis unfolding vt_cache_ok_def by simp
      next
        case True
        with dist cT rt have crt: "c = rt" by (rule distinct_name_eq)
        show ?thesis
        proof (cases "sl' = slot")
          case True
          with a crt sl b c show ?thesis by simp
        next
          case False
          with a crt have "sl' < length ?plans \<and> ?plans ! sl' = Some q" by simp
          with ok rt rc crt show ?thesis unfolding vt_cache_ok_def by blast
        qed
      qed
    qed
    with b c s' show ?thesis by simp
  qed
qed

lemma interface_slots_snd: "map snd (interface_slots t) = [0..<length (methods t)]"
proof -
  have "snd \<circ> (\<lambda>(i, m). (m, i)) = (fst :: nat \<times> string \<Rightarrow> nat)"
    by (rule ext) (simp add: case_prod_unfold)
  then have "map snd (interface_slots t) = map fst (enumerate 0 (map fst (methods t)))"
    by (simp add: interface_slots_def)
  then show ?thesis by (simp add: map_fst_enumerate)
qed

lemma itable_build_ok:
  assumes lk: "linked D T"
  shows "itable_build cfg T rt iface slots plans mt = Some (Inr (plans', mt'))
     \<Longrightarrow> distinct (map snd slots)
     \<Longrightarrow> length plans' = length plans
         \<and> (\<forall>(m', sl)\<in>set slots. \<exists>p. dyn_plan T rt m' p \<and> sl < length plans \<and> plans' ! sl = Some p)
         \<and> (\<forall>i. i \<notin> snd ` set slots \<longrightarrow> plans' ! i = plans ! i)"
proof (induction slots arbitrary: plans mt)
  case Nil
  then show ?case by simp
next
  case (Cons ms slots)
  obtain m0 s0 where ms: "ms = (m0, s0)" by (cases ms)
  from Cons.prems(1) ms obtain toks k mt1 plan where
    w: "lookup_with_steps T rt m0 mt = Some ((Some toks, k), mt1)"
    and c: "compile_plan T rt m0 toks = Inr plan"
    and b: "s0 < length plans"
    and run: "itable_build cfg T rt iface slots (plans[s0 := Some plan])
                (if enable_metrics cfg then mt1\<lparr> resolve_steps := resolve_steps mt1 + int k \<rparr> else mt1)
              = Some (Inr (plans', mt'))"
    by (auto split: option.splits sum.splits if_splits prod.splits)
  from Cons.prems(2) ms have d: "distinct (map snd slots)" and fresh: "s0 \<notin> snd ` set slots"
    by auto
  note IH = Cons.IH [OF run d]
  from lookup_with_steps_fst [OF lk w] c have dp: "dyn_plan T rt m0 plan"
    by (auto simp: dyn_plan_def)
  from IH fresh b have at0: "plans' ! s0 = Some plan" by simp
  have len: "length plans' = length plans" using IH by simp
  have rest: "\<forall>(m', sl)\<in>set slots. \<exists>p. dyn_plan T rt m' p \<and> sl < length plans \<and> plans' ! sl = Some p"
    using IH by auto
  have oth: "\<forall>i. i \<notin> snd ` set (ms # slots) \<longrightarrow> plans' ! i = plans ! i"
    using IH ms by auto
  from dp b at0 rest ms have all: "\<forall>(m', sl)\<in>set (ms # slots).
      \<exists>p. dyn_plan T rt m' p \<and> sl < length plans \<and> plans' ! sl = Some p"
    by auto
  from len all oth show ?case by blast
qed

lemma itable_cache_res:
  assumes run: "itable_cache cfg T e s rt iface = Some (Inr (cache, s'))"
    and lk: "linked D T" and ok: "it_cache_ok T (class_itable_plans s)"
    and rt: "rt \<in> set D" and iface: "iface \<in> set D" and ii: "is_interface iface"
  shows "(\<forall>m slot p. map_of (method_slot T (name iface)) m = Some slot \<and> slot < length cache
             \<and> cache ! slot = Some p \<longrightarrow> dyn_plan T rt m p)
     \<and> it_cache_ok T (class_itable_plans s')
     \<and> class_vtable_plans s' = class_vtable_plans s \<and> plan_cache s' = plan_cache s"
proof -
  from lk have ty: "types T = D" and dist: "distinct (map name D)" by (simp_all add: linked_def)
  show ?thesis
  proof (cases "class_itable_plans s (name rt) (name iface)")
    case (Some stored)
    with run have e: "cache = stored" "s' = with_metrics cfg count_hit s"
      by (auto simp: itable_cache_def)
    have "\<forall>m slot p. map_of (method_slot T (name iface)) m = Some slot \<and> slot < length stored
             \<and> stored ! slot = Some p \<longrightarrow> dyn_plan T rt m p"
      using ok rt iface Some ty unfolding it_cache_ok_def by blast
    with e ok show ?thesis by simp
  next
    case None
    let ?slots = "method_slot T (name iface)"
    let ?s1 = "with_metrics cfg count_miss s"
    from run None obtain mt where
      b: "itable_build cfg T rt iface ?slots (replicate (length ?slots) None) (metrics_of ?s1)
            = Some (Inr (cache, mt))"
      and s': "s' = with_metrics cfg (count_resolve e)
                 (?s1\<lparr> metrics_of := mt,
                       class_itable_plans := (class_itable_plans ?s1)(name rt :=
                          (class_itable_plans ?s1 (name rt))(name iface \<mapsto> cache)) \<rparr>)"
      by (auto simp: itable_cache_def Let_def split: option.splits sum.splits)
    have ds: "distinct (map snd ?slots)"
      using linked_interface(4) [OF lk iface ii] by (simp add: interface_slots_snd)
    note bo = itable_build_ok [OF lk b ds]
    have new: "\<forall>m slot p. map_of ?slots m = Some slot \<and> slot < length cache
             \<and> cache ! slot = Some p \<longrightarrow> dyn_plan T rt m p"
    proof (intro allI impI)
      fix m slot p
      assume a: "map_of ?slots m = Some slot \<and> slot < length cache \<and> cache ! slot = Some p"
      then have "(m, slot) \<in> set ?slots" by (auto dest: map_of_SomeD)
      with bo obtain q where "dyn_plan T rt m q" "cache ! slot = Some q" by blast
      with a show "dyn_plan T rt m p" by simp
    qed
    have ip: "class_itable_plans s' = (class_itable_plans s)(name rt :=
                          (class_itable_plans s (name rt))(name iface \<mapsto> cache))"
      by (simp add: s')
    have "it_cache_ok T (class_itable_plans s')"
      unfolding it_cache_ok_def ip
    proof (intro ballI allI impI)
      fix c i ch m slot p
      assume cT: "c \<in> set (types T)" and iT: "i \<in> set (types T)"
        and a: "((class_itable_plans s)(name rt :=
                    (class_itable_plans s (name rt))(name iface \<mapsto> cache))) (name c) (name i) = Some ch
                \<and> map_of (method_slot T (name i)) m = Some slot
                \<and> slot < length ch \<and> ch ! slot = Some p"
      show "dyn_plan T c m p"
      proof (cases "name c = name rt \<and> name i = name iface")
        case True
        with dist cT iT rt iface ty have "c = rt" "i = iface"
          by (auto intro: distinct_name_eq)
        with a new show ?thesis by auto
      next
        case False
        with a have "class_itable_plans s (name c) (name i) = Some ch" by (auto split: if_splits)
        with ok cT iT a show ?thesis unfolding it_cache_ok_def by blast
      qed
    qed
    with new s' show ?thesis by simp
  qed
qed

lemma itable_plan_res:
  assumes run: "itable_plan cfg T e s rt iface m = Some (Inr (p, s'))"
    and lk: "linked D T" and ok: "it_cache_ok T (class_itable_plans s)"
    and rt: "rt \<in> set D" and iface: "iface \<in> set D" and ii: "is_interface iface"
  shows "dyn_plan T rt m p \<and> it_cache_ok T (class_itable_plans s')
     \<and> class_vtable_plans s' = class_vtable_plans s \<and> plan_cache s' = plan_cache s"
proof -
  from run obtain cache slot where
    c: "itable_cache cfg T e s rt iface = Some (Inr (cache, s'))"
    and sl: "map_of (method_slot T (name iface)) m = Some slot" "slot < length cache"
      "cache ! slot = Some p"
    by (auto simp: itable_plan_def split: option.splits sum.splits if_splits)
  from itable_cache_res [OF c lk ok rt iface ii] sl show ?thesis by blast
qed

lemma fallback_res:
  assumes run: "resolve_call_plan cfg T e s view rt m dynamic = Some (Inr (p, s'))"
    and path: "\<not> (dynamic \<and> enable_vtable cfg)"
    and lk: "linked D T" and ok: "pc_ok T (plan_cache s)"
    and view: "view \<in> set D" and rt: "rt \<in> set D"
  shows "(dynamic \<longrightarrow> dyn_plan T rt m p) \<and> pc_ok T (plan_cache s')
     \<and> class_vtable_plans s' = class_vtable_plans s
     \<and> class_itable_plans s' = class_itable_plans s"
proof -
  from lk have ty: "types T = D" and dist: "distinct (map name D)" by (simp_all add: linked_def)
  let ?key = "(if dynamic then ''dyn'' else ''static'', name view, name rt, m)"
  show ?thesis
  proof (cases "if enable_cache cfg then plan_cache s ?key else None")
    case (Some cached)
    with run path have e: "p = cached" "s' = with_metrics cfg count_hit s"
      by (auto simp: resolve_call_plan_def Let_def split: option.splits)
    from Some have "plan_cache s ?key = Some cached" by (simp split: if_splits)
    with ok view rt ty have "dynamic \<longrightarrow> dyn_plan T rt m cached"
      unfolding pc_ok_def by auto
    with e ok show ?thesis by simp
  next
    case None
    let ?s1 = "if enable_cache cfg then with_metrics cfg count_miss s else s"
    from run path None obtain toks steps mt where
      ll: "linear_lookup T (metrics_of ?s1) view rt m dynamic = Some (Inr ((Some toks, steps), mt))"
      and c: "compile_plan T rt m toks = Inr p"
      and pc: "plan_cache s' = (if enable_cache cfg then (plan_cache s)(?key \<mapsto> p) else plan_cache s)"
      and vp: "class_vtable_plans s' = class_vtable_plans s"
      and ip: "class_itable_plans s' = class_itable_plans s"
      by (auto simp: resolve_call_plan_def Let_def split: option.splits sum.splits if_splits)
    have dp: "dynamic \<longrightarrow> dyn_plan T rt m p"
    proof
      assume dynamic
      with ll have "lookup_with_steps T rt m (metrics_of ?s1) = Some ((Some toks, steps), mt)"
        by (auto simp: linear_lookup_def split: if_splits option.splits bool.splits)
      from lookup_with_steps_fst [OF lk this] c show "dyn_plan T rt m p"
        by (auto simp: dyn_plan_def)
    qed
    have "pc_ok T (plan_cache s')"
      unfolding pc_ok_def
    proof (intro ballI allI impI)
      fix v c m' q
      assume vT: "v \<in> set (types T)" and cT: "c \<in> set (types T)"
        and a: "plan_cache s' (''dyn'', name v, name c, m') = Some q"
      show "dyn_plan T c m' q"
      proof (cases "enable_cache cfg \<and> ?key = (''dyn'', name v, name c, m')")
        case True
        then have dy: "dynamic" and nm: "name c = name rt" and mm: "m' = m"
          by (auto split: if_splits)
        from dist cT rt nm ty have "c = rt" by (auto intro: distinct_name_eq)
        moreover from a pc True have "q = p" by simp
        ultimately show ?thesis using dp dy mm by simp
      next
        case False
        with a pc have "plan_cache s (''dyn'', name v, name c, m') = Some q"
          by (auto split: if_splits)
        with ok vT cT show ?thesis unfolding pc_ok_def by blast
      qed
    qed
    with dp vp ip show ?thesis by simp
  qed
qed

lemma fast_res:
  assumes run: "resolve_call_plan cfg T e s view rt m True = Some (Inr (p, s'))"
    and vt: "enable_vtable cfg"
    and lk: "linked D T" and wfm: "\<forall>t\<in>set D. distinct (map fst (methods t))"
    and ok: "caches_ok T s"
    and view: "view \<in> set D" and rt: "rt \<in> set D" and rc: "\<not> is_interface rt"
  shows "dyn_plan T rt m p \<and> caches_ok T s'"
proof -
  from lk have ty: "types T = D" and dist: "distinct (map name D)" by (simp_all add: linked_def)
  show ?thesis
  proof (cases "is_interface view")
    case True
    with run vt obtain s1 where
      ip: "itable_plan cfg T e s rt view m = Some (Inr (p, s1))"
      and s': "s' = with_metrics cfg (\<lambda>m. m\<lparr> itable_uses := itable_uses m + 1 \<rparr>) s1"
      by (auto simp: resolve_call_plan_def Let_def split: option.splits sum.splits if_splits bool.splits)
    from ok have "it_cache_ok T (class_itable_plans s)" by (simp add: caches_ok_def)
    from itable_plan_res [OF ip lk this rt view True] ok s' show ?thesis
      by (simp add: caches_ok_def)
  next
    case False
    with run vt obtain sub slot s1 where
      sub: "is_subclass_of T rt view = Some sub" "sub \<or> name rt = name view"
      and slot: "map_of (method_slot T (name view)) m = Some slot"
      and vp: "vtable_plan cfg T e s rt slot = Inr (p, s1)"
      and s': "s' = with_metrics cfg (\<lambda>m. m\<lparr> vtable_uses := vtable_uses m + 1 \<rparr>) s1"
      by (auto simp: resolve_call_plan_def Let_def split: option.splits sum.splits if_splits)
    from ok have vok: "vt_cache_ok T (class_vtable_plans s)" by (simp add: caches_ok_def)
    from rt dist ty have rtT: "rt \<in> set (types T)" and dT: "distinct (map name (types T))"
      by simp_all
    note vr = vtable_plan_res [OF vp vok rtT rc dT]
    have anc: "ancestor T rt view"
    proof (cases sub)
      case True
      with sub is_subclass_of_ancestor [OF lk rt view] show ?thesis by simp
    next
      case f: False
      with sub have "name rt = name view" by simp
      with dist rt view have "rt = view" by (rule distinct_name_eq)
      then show ?thesis by (simp add: ancestor.self)
    qed
    from ancestor_slots [OF lk anc rt rc, of m slot] slot
    have rslot: "map_of (method_slot T (name rt)) m = Some slot" by simp
    from lookup_slots [OF lk rt rc, of m] obtain r where
      r: "lookup_method_loop T (Some rt) m = Some r"
      "r = None \<longleftrightarrow> map_of (method_slot T (name rt)) m = None"
      "(\<forall>t\<in>set D. distinct (map fst (methods t))) \<longrightarrow>
                (\<forall>toks s. r = Some toks \<longrightarrow> map_of (method_slot T (name rt)) m = Some s
                   \<longrightarrow> vtable_tokens T (name rt) ! s = toks)"
      by (elim exE conjE)
    from r(2) rslot obtain toks where toks: "r = Some toks" by auto
    with r(3) wfm rslot have "vtable_tokens T (name rt) ! slot = toks" by simp
    with vr have "compile_plan T rt ''<slot>'' toks = Inr p" by simp
    then have "compile_plan T rt m toks = Inr p"
      using compile_plan_name [of T rt m toks "''<slot>''"] by simp
    with r(1) toks have dp: "dyn_plan T rt m p" by (auto simp: dyn_plan_def)
    from vr ok s' have "caches_ok T s'" by (simp add: caches_ok_def)
    with dp show ?thesis by simp
  qed
qed

text \<open>Every resolution leaves the caches as the invariant wants them.\<close>

lemma resolve_keeps_caches:
  assumes run: "resolve_call_plan cfg T e s view rt m dynamic = Some (Inr (p, s'))"
    and lk: "linked D T" and wfm: "\<forall>t\<in>set D. distinct (map fst (methods t))"
    and ok: "caches_ok T s"
    and view: "view \<in> set D" and rt: "rt \<in> set D" and rc: "\<not> is_interface rt"
  shows "caches_ok T s'"
proof (cases "dynamic \<and> enable_vtable cfg")
  case True
  with run fast_res [OF _ _ lk wfm ok view rt rc, of cfg e m p s'] show ?thesis by simp
next
  case False
  from ok have "pc_ok T (plan_cache s)" by (simp add: caches_ok_def)
  from fallback_res [OF run False lk this view rt] ok show ?thesis
    by (simp add: caches_ok_def)
qed

text \<open>C1: on a linked table whose method dicts have distinct keys, for a view type and a
  runtime class of the table, when the dynamic call with the vtable toggle enabled and the
  dynamic call with the toggle disabled both succeed, each from an interpreter whose caches
  hold only what resolutions put there, the two plans are the same, so evaluating them
  against the same object gives the same values or the same failure; and both resolutions
  leave such caches behind.\<close>

theorem dispatch_strategies_agree:
  assumes link: "resolve_and_link D = Some (Inr T)" and dist: "distinct (map name D)"
    and wfm: "\<forall>t\<in>set D. distinct (map fst (methods t))"
    and view: "view \<in> set D" and runtime: "runtime \<in> set D" and rc: "\<not> is_interface runtime"
    and on: "enable_vtable cfg_fast" and off: "\<not> enable_vtable cfg_slow"
    and ok_fast: "caches_ok T s_fast" and ok_slow: "caches_ok T s_slow"
    and fast: "resolve_call_plan cfg_fast T e1 s_fast view runtime m True = Some (Inr (p1, s1))"
    and slow: "resolve_call_plan cfg_slow T e2 s_slow view runtime m True = Some (Inr (p2, s2))"
  shows "p1 = p2 \<and> eval_plan obj p1 [] = eval_plan obj p2 []
     \<and> caches_ok T s1 \<and> caches_ok T s2"
proof -
  from link dist have lk: "linked D T" by (rule link_linked)
  from fast_res [OF fast on lk wfm ok_fast view runtime rc]
  have f: "dyn_plan T runtime m p1" and c1: "caches_ok T s1" by simp_all
  from off have path: "\<not> (True \<and> enable_vtable cfg_slow)" by simp
  from ok_slow have "pc_ok T (plan_cache s_slow)" by (simp add: caches_ok_def)
  from fallback_res [OF slow path lk this view runtime]
  have s: "dyn_plan T runtime m p2" by simp
  from resolve_keeps_caches [OF slow lk wfm ok_slow view runtime rc] have c2: "caches_ok T s2" .
  from dyn_plan_unique [OF f s] c1 c2 show ?thesis by simp
qed

lemma ex_wfm: "\<forall>t\<in>set ex_types. distinct (map fst (methods t))"
  by (simp add: ex_defs)

lemma ex_s1_itable: "class_itable_plans ex_s1 = (\<lambda>_. Map.empty)"
  by (simp add: ex_s1_def exec_let_new_def instantiate_def ex_lookup ex_kinds all_fields_def
      ex_names ex_table_all_fields ex_s0_def new_interp_def)

lemma ex_s1_caches: "caches_ok ex_table ex_s1"
  using caches_ok_new [OF link_linked [OF ex_link ex_distinct], of ex_mem]
  by (simp add: caches_ok_def new_interp_def ex_s1_plans ex_s1_itable)

lemma ex_fast_run:
  "resolve_call_plan ex_cfg_vtable ex_table 3 ex_s1 ex_A ex_B ''m'' True
     = Some (Inr ([(True, 1)], ex_fast))"
  by (simp add: ex_fast_def resolve_eval vtable_plan_def ex_lookup_method ex_cfg_vtable_def
      ex_s1_plans ex_kinds ex_subclass ex_table_slots token_eval ex_names ex_table_index
      index_map_def)

lemma ex_slow_run:
  "resolve_call_plan ex_cfg ex_table 4 ex_s1 ex_A ex_B ''m'' True
     = Some (Inr ([(True, 1)], ex_slow))"
  by (simp add: ex_slow_def resolve_eval ex_lookup_method ex_cfg_def
      ex_s1_plans ex_kinds ex_methods token_eval ex_names ex_table_index index_map_def)

lemma ex_fast_iface_run:
  "resolve_call_plan ex_cfg_vtable ex_table 3 ex_s1 ex_I ex_B ''m'' True
     = Some (Inr ([(True, 1)], ex_fast_iface))"
  by (simp add: ex_fast_iface_def resolve_eval itable_plan_def itable_cache_def ex_lookup_method
      ex_cfg_vtable_def ex_s1_plans ex_s1_itable ex_kinds ex_implements ex_table_slots ex_methods
      token_eval ex_names ex_table_index index_map_def)

lemma ex_slow_iface_run:
  "resolve_call_plan ex_cfg ex_table 4 ex_s1 ex_I ex_B ''m'' True
     = Some (Inr ([(True, 1)], ex_slow_iface))"
  by (simp add: ex_slow_iface_def resolve_eval ex_lookup_method ex_cfg_def ex_implements
      ex_s1_plans ex_kinds ex_methods token_eval ex_names ex_table_index index_map_def)

theorem dispatch_strategies_agree_witness:
  "resolve_call_plan ex_cfg_vtable ex_table 3 ex_s1 ex_A ex_B ''m'' True
     = Some (Inr ([(True, 1)], ex_fast))
   \<and> resolve_call_plan ex_cfg ex_table 4 ex_s1 ex_A ex_B ''m'' True
     = Some (Inr ([(True, 1)], ex_slow))
   \<and> resolve_call_plan ex_cfg_vtable ex_table 3 ex_s1 ex_I ex_B ''m'' True
     = Some (Inr ([(True, 1)], ex_fast_iface))
   \<and> resolve_call_plan ex_cfg ex_table 4 ex_s1 ex_I ex_B ''m'' True
     = Some (Inr ([(True, 1)], ex_slow_iface))
   \<and> eval_plan (store ex_s1 0) [(True, 1)] [] = Inr [6]
   \<and> caches_ok ex_table ex_fast \<and> caches_ok ex_table ex_slow
   \<and> caches_ok ex_table ex_fast_iface \<and> caches_ok ex_table ex_slow_iface"
proof -
  have on: "enable_vtable ex_cfg_vtable" and off: "\<not> enable_vtable ex_cfg"
    by (simp_all add: ex_cfg_vtable_def ex_cfg_def)
  note c = dispatch_strategies_agree [OF ex_link ex_distinct ex_wfm ex_members(1) ex_members(2)
      ex_kinds(2) on off ex_s1_caches ex_s1_caches ex_fast_run ex_slow_run, of "store ex_s1 0"]
  note i = dispatch_strategies_agree [OF ex_link ex_distinct ex_wfm ex_members(3) ex_members(2)
      ex_kinds(2) on off ex_s1_caches ex_s1_caches ex_fast_iface_run ex_slow_iface_run,
      of "store ex_s1 0"]
  have ev: "eval_plan (store ex_s1 0) [(True, 1)] [] = Inr [6]"
    by (simp add: ex_s1_state py_index_def)
  from c i ev ex_fast_run ex_slow_run ex_fast_iface_run ex_slow_iface_run show ?thesis by simp
qed

end
